theory Spec2Isabelle
  imports Main "HOL-Library.AList"
begin

section \<open>Steps, statuses and errors\<close>

text \<open>
  A step is identified by reference in the source (\<^verbatim>\<open>Steper\<close> is an interface value used as
  a map key). Here a step is a label together with the steps it exposes through its
  unwrap capability, so that two steps are the same step iff they are equal.
\<close>

datatype Steper = Steper nat "Steper list"

text \<open>
  Modelled from the spec: \<^verbatim>\<open>StepStatus\<close> is declared outside \<^verbatim>\<open>workflow.go\<close>. The spec
  names \<open>Pending\<close> (initial), \<open>Running\<close> and the four terminal statuses;
  \<^verbatim>\<open>workflow.go\<close> itself adds the private marker \<^verbatim>\<open>scanned\<close>.
\<close>

datatype StepStatus = Pending | Running | Failed | Succeeded | Canceled | Skipped | scanned

fun IsTerminated_status :: "StepStatus \<Rightarrow> bool" where
  "IsTerminated_status Failed = True"
| "IsTerminated_status Succeeded = True"
| "IsTerminated_status Canceled = True"
| "IsTerminated_status Skipped = True"
| "IsTerminated_status _ = False"

text \<open>
  Modelled from the spec: the phases and their order \<^verbatim>\<open>WorkflowPhases\<close>;
  \<^verbatim>\<open>PhaseUnknown\<close> is what \<^verbatim>\<open>PhaseOf\<close> answers for a step in no phase.
\<close>

datatype Phase = PhaseUnknown | PhaseInit | PhaseMain | PhaseDefer

definition WorkflowPhases :: "Phase list" where
  "WorkflowPhases = [PhaseInit, PhaseMain, PhaseDefer]"

text \<open>
  The error values the source builds or returns. \<open>ErrorString\<close> is a plain error carrying
  a message (\<^verbatim>\<open>fmt.Errorf\<close>); \<open>ErrWorkflowHasRun\<close> is a sentinel the spec lists and the
  test expects.
\<close>

datatype error =
    ErrorString string
  | ErrInput error
  | ErrPanic error
  | ErrSkip
  | ErrCanceled
  | ErrWorkflowIsRunning
  | ErrWorkflowHasRun
  | ErrUnexpectStepInitStatus "(Steper \<times> StepStatus) list"
  | ErrCycleDependency "(Steper \<times> Steper list) list"
  | ErrWorkflow "(Steper \<times> StepStatus \<times> error option) list"

type_synonym StatusError = "StepStatus \<times> error option"

type_synonym Context = nat

section \<open>Panics and their recovery\<close>

text \<open>
  A Go call either returns or panics with a value. The value of a panic is an \<^verbatim>\<open>error\<close>
  or something else; of the latter only its \<^verbatim>\<open>%s\<close> rendering is kept, which is all
  \<^verbatim>\<open>catchPanicAsError\<close> reads.
\<close>

datatype panic_value = PanicError error | PanicOther string

datatype 'a outcome = Returns 'a | Panics panic_value

text \<open>
  \<^verbatim>\<open>catchPanicAsError(f)\<close>: the argument is the outcome of calling \<^verbatim>\<open>f\<close>. A recovered
  error is kept, any other value becomes \<^verbatim>\<open>fmt.Errorf("%s", r)\<close>, and the result is
  wrapped in \<^verbatim>\<open>ErrPanic\<close>.
\<close>

definition catchPanicAsError :: "error option outcome \<Rightarrow> error option outcome" where
  "catchPanicAsError f =
     (case f of
        Returns e \<Rightarrow> Returns e
      | Panics r \<Rightarrow>
          Returns (Some (ErrPanic (case r of PanicError t \<Rightarrow> t | PanicOther s \<Rightarrow> ErrorString s))))"

record Notify =
  BeforeStep :: "(Context \<Rightarrow> Steper \<Rightarrow> Context outcome) option"
  AfterStep :: "(Context \<Rightarrow> Steper \<Rightarrow> error option \<Rightarrow> unit outcome) option"

text \<open>
  \<^verbatim>\<open>notifyStep\<close>: the \<^verbatim>\<open>BeforeStep\<close> hooks run in order, each on the context the previous
  one returned; the \<^verbatim>\<open>AfterStep\<close> hooks are collected in order.
\<close>

fun notifyStep ::
  "Notify list \<Rightarrow> Context \<Rightarrow> Steper \<Rightarrow>
     (Context \<times> (Context \<Rightarrow> Steper \<Rightarrow> error option \<Rightarrow> unit outcome) list) outcome" where
  "notifyStep [] ctx step = Returns (ctx, [])"
| "notifyStep (n # ns) ctx step =
     (case (case BeforeStep n of None \<Rightarrow> Returns ctx | Some b \<Rightarrow> b ctx step) of
        Panics v \<Rightarrow> Panics v
      | Returns ctx' \<Rightarrow>
          (case notifyStep ns ctx' step of
             Panics v \<Rightarrow> Panics v
           | Returns (ctx'', afters) \<Rightarrow>
               Returns (ctx'', (case AfterStep n of None \<Rightarrow> [] | Some a \<Rightarrow> [a]) @ afters)))"

text \<open>The function \<^verbatim>\<open>notifyStep\<close> returns: it calls the collected hooks in order.\<close>

fun afterStep ::
  "(Context \<Rightarrow> Steper \<Rightarrow> error option \<Rightarrow> unit outcome) list \<Rightarrow>
     Context \<Rightarrow> Steper \<Rightarrow> error option \<Rightarrow> unit outcome" where
  "afterStep [] ctx sr err = Returns ()"
| "afterStep (a # as) ctx sr err =
     (case a ctx sr err of Panics v \<Rightarrow> Panics v | Returns _ \<Rightarrow> afterStep as ctx sr err)"

text \<open>
  A deferred call runs when the function body has returned or panicked. When the deferred
  call panics, its panic is the one that goes on; otherwise the body's outcome stands.
\<close>

definition deferred :: "unit outcome \<Rightarrow> 'a outcome \<Rightarrow> 'a outcome" where
  "deferred d body = (case d of Panics v \<Rightarrow> Panics v | Returns _ \<Rightarrow> body)"

section \<open>The workflow and its state table\<close>

text \<open>
  Modelled from the spec: \<^verbatim>\<open>StepOption\<close>, \<^verbatim>\<open>StepConfig\<close> and \<^verbatim>\<open>State\<close> are declared
  outside \<^verbatim>\<open>workflow.go\<close>. A state holds the status, the terminal error and the merged
  configuration: the upstream set (a list without duplicates) and the option with the
  gating condition and the timeout.
\<close>

record StepOption =
  Timeout :: "nat option"
  Condition :: "(Context \<Rightarrow> (Steper \<times> StatusError) list \<Rightarrow> StepStatus) option"

record StepConfig =
  Upstreams :: "Steper list"
  StepOpt :: "StepOption option"

record State =
  Status :: StepStatus
  Err :: "error option"
  Config :: StepConfig

text \<open>
  The source keeps \<^verbatim>\<open>*State\<close> pointers: the state table maps a step to a pointer, and
  \<^verbatim>\<open>StateOf\<close> may answer with a pointer it shares with another step or with a nested
  workflow. A pointer is an address of the store \<open>heap\<close>; \<^verbatim>\<open>new(State)\<close> takes the address
  \<open>next_ref\<close>.
\<close>

type_synonym ref = nat

text \<open>
  The struct \<^verbatim>\<open>Workflow\<close>. The maps are association lists: a map with unique keys, whose
  order stands for the order in which Go ranges over it. \<open>waitGroup\<close> holds the
  goroutines in flight (its length is the counter of the source's wait group),
  \<open>oneStepTerminated\<close> the number of signals queued in the channel, \<open>isRunning\<close> whether the
  mutex is locked. The parallelism bucket only delays a launch and is not modelled.

  The fields from \<open>heap\<close> on are the world around the struct: the store of states, the
  capabilities \<^verbatim>\<open>StateOf\<close> and \<^verbatim>\<open>RootOf\<close> of those steps whose dynamic type has them (a
  nested workflow), the package variables \<^verbatim>\<open>DefaultCondition\<close> and \<^verbatim>\<open>DefaultIsCanceled\<close>,
  and the test \<^verbatim>\<open>errors.Is(err, &ErrSkip{})\<close>.
\<close>

record Workflow =
  tree :: "(Steper \<times> Steper) list"
  state :: "(Steper \<times> ref) list"
  steps :: "(Phase \<times> Steper list) list"
  waitGroup :: "(Steper \<times> ref) list"
  isRunning :: bool
  oneStepTerminated :: nat
  notify :: "Notify list"
  DontPanic :: bool
  heap :: "ref \<Rightarrow> State"
  next_ref :: ref
  nested_StateOf :: "Steper \<Rightarrow> (Steper \<Rightarrow> ref option) option"
  nested_RootOf :: "Steper \<Rightarrow> (Steper \<Rightarrow> Steper option) option"
  DefaultCondition :: "Context \<Rightarrow> (Steper \<times> StatusError) list \<Rightarrow> StepStatus"
  DefaultIsCanceled :: "error \<Rightarrow> bool"
  IsErrSkip :: "error \<Rightarrow> bool"

text \<open>
  Modelled from the spec: the accessors of \<^verbatim>\<open>State\<close>, on the address of a state.
\<close>

text \<open>\<^verbatim>\<open>new(State)\<close>: the zero value.\<close>

definition State0 :: State where
  "State0 = \<lparr>Status = Pending, Err = None, Config = \<lparr>Upstreams = [], StepOpt = None\<rparr>\<rparr>"

definition GetStatus :: "Workflow \<Rightarrow> ref \<Rightarrow> StepStatus" where
  "GetStatus w r = Status (heap w r)"

definition GetStatusError :: "Workflow \<Rightarrow> ref \<Rightarrow> StatusError" where
  "GetStatusError w r = (Status (heap w r), Err (heap w r))"

definition GetUpstreams :: "Workflow \<Rightarrow> ref \<Rightarrow> Steper list" where
  "GetUpstreams w r = Upstreams (Config (heap w r))"

definition SetStatus :: "ref \<Rightarrow> StepStatus \<Rightarrow> Workflow \<Rightarrow> Workflow" where
  "SetStatus r ss w = w\<lparr>heap := (heap w)(r := (heap w r)\<lparr>Status := ss\<rparr>)\<rparr>"

definition SetError :: "ref \<Rightarrow> error option \<Rightarrow> Workflow \<Rightarrow> Workflow" where
  "SetError r e w = w\<lparr>heap := (heap w)(r := (heap w r)\<lparr>Err := e\<rparr>)\<rparr>"

text \<open>
  In the functions below the result \<open>None\<close> stands for a call of the source that does not
  return a value: it dereferences a \<^verbatim>\<open>nil\<close> state (a panic), or climbs a parent chain
  that never reaches a root. A \<^verbatim>\<open>nil\<close> step or state that is returned is \<open>Some None\<close>.
\<close>

definition deref :: "ref option option \<Rightarrow> ref option" where
  "deref p = (case p of Some (Some r) \<Rightarrow> Some r | _ \<Rightarrow> None)"

definition empty :: "Workflow \<Rightarrow> bool" where
  "empty w = (length (tree w) = 0 \<or> length (state w) = 0 \<or> length (steps w) = 0)"

text \<open>\<^verbatim>\<open>w.steps[phase]\<close> as the range loops read it: no bucket is an empty range.\<close>

definition bucket :: "Workflow \<Rightarrow> Phase \<Rightarrow> Steper list" where
  "bucket w phase = (case map_of (steps w) phase of None \<Rightarrow> [] | Some b \<Rightarrow> b)"

text \<open>
  Modelled from the spec: \<^verbatim>\<open>StepTree.RootOf\<close> climbs from a step to the step that the
  tree maps to itself; a step the tree does not know has the root \<^verbatim>\<open>nil\<close>. The climb is
  given one move per entry of the tree and one more: a chain that needs more is cyclic,
  and the climb of the source would not return.
\<close>

fun climb :: "nat \<Rightarrow> (Steper \<times> Steper) list \<Rightarrow> Steper \<Rightarrow> Steper option option" where
  "climb 0 t s = None"
| "climb (Suc n) t s =
     (case map_of t s of
        None \<Rightarrow> Some None
      | Some p \<Rightarrow> if p = s then Some (Some s) else climb n t p)"

definition RootOf :: "Workflow \<Rightarrow> Steper option \<Rightarrow> Steper option option" where
  "RootOf w step =
     (if empty w then Some None
      else (case step of
              None \<Rightarrow> Some None
            | Some s \<Rightarrow> climb (Suc (length (tree w))) (tree w) s))"

definition StateOf :: "Workflow \<Rightarrow> Steper option \<Rightarrow> ref option option" where
  "StateOf w step =
     (case step of
        None \<Rightarrow> Some None
      | Some s \<Rightarrow>
          if empty w then Some None
          else (case map_of (tree w) s of
                  None \<Rightarrow> Some None
                | Some ancestor \<Rightarrow>
                    if ancestor = s then Some (map_of (state w) s)
                    else (case nested_StateOf w ancestor of
                            Some f \<Rightarrow> Some (f s)
                          | None \<Rightarrow>
                              (case RootOf w (Some ancestor) of
                                 None \<Rightarrow> None
                               | Some None \<Rightarrow> Some None
                               | Some (Some root) \<Rightarrow> Some (map_of (state w) root)))))"

text \<open>
  \<^verbatim>\<open>UpstreamOf\<close>: the inner loop over the upstreams of the root's state, then the loop
  over the phases. The result map is an association list.
\<close>

fun UpstreamOf_ups ::
  "Workflow \<Rightarrow> Steper list \<Rightarrow> (Steper \<times> StatusError) list \<Rightarrow> (Steper \<times> StatusError) list option" where
  "UpstreamOf_ups w [] rv = Some rv"
| "UpstreamOf_ups w (up # ups) rv =
     (case RootOf w (Some up) of
        None \<Rightarrow> None
      | Some None \<Rightarrow> None
      | Some (Some up') \<Rightarrow>
          (case deref (StateOf w (Some up')) of
             None \<Rightarrow> None
           | Some st \<Rightarrow> UpstreamOf_ups w ups (AList.update up' (GetStatusError w st) rv)))"

fun UpstreamOf_phases ::
  "Workflow \<Rightarrow> Steper option \<Rightarrow> Phase list \<Rightarrow> (Steper \<times> StatusError) list \<Rightarrow>
     (Steper \<times> StatusError) list option" where
  "UpstreamOf_phases w root [] rv = Some rv"
| "UpstreamOf_phases w root (phase # phases) rv =
     (case map_of (steps w) phase of
        None \<Rightarrow> UpstreamOf_phases w root phases rv
      | Some b \<Rightarrow>
          (case root of
             None \<Rightarrow> UpstreamOf_phases w root phases rv
           | Some r \<Rightarrow>
               if r \<in> set b then
                 (case deref (StateOf w root) of
                    None \<Rightarrow> None
                  | Some st \<Rightarrow>
                      (case UpstreamOf_ups w (GetUpstreams w st) rv of
                         None \<Rightarrow> None
                       | Some rv' \<Rightarrow> UpstreamOf_phases w root phases rv'))
               else UpstreamOf_phases w root phases rv))"

definition UpstreamOf :: "Workflow \<Rightarrow> Steper option \<Rightarrow> (Steper \<times> StatusError) list option" where
  "UpstreamOf w step =
     (if empty w then Some []
      else (case RootOf w step of
              None \<Rightarrow> None
            | Some root \<Rightarrow> UpstreamOf_phases w root WorkflowPhases []))"

text \<open>
  \<^verbatim>\<open>DownstreamOf\<close>: the source compares the root of each upstream with \<^verbatim>\<open>w.tree[step]\<close>,
  the container of the step.
\<close>

fun DownstreamOf_ups ::
  "Workflow \<Rightarrow> Steper option \<Rightarrow> Steper \<Rightarrow> Steper list \<Rightarrow> (Steper \<times> StatusError) list \<Rightarrow>
     (Steper \<times> StatusError) list option" where
  "DownstreamOf_ups w root down [] rv = Some rv"
| "DownstreamOf_ups w root down (up # ups) rv =
     (case RootOf w (Some up) of
        None \<Rightarrow> None
      | Some r \<Rightarrow>
          if r = root then
            (case deref (StateOf w (Some down)) of
               None \<Rightarrow> None
             | Some st \<Rightarrow>
                 DownstreamOf_ups w root down ups (AList.update down (GetStatusError w st) rv))
          else DownstreamOf_ups w root down ups rv)"

fun DownstreamOf_downs ::
  "Workflow \<Rightarrow> Steper option \<Rightarrow> Steper list \<Rightarrow> (Steper \<times> StatusError) list \<Rightarrow>
     (Steper \<times> StatusError) list option" where
  "DownstreamOf_downs w root [] rv = Some rv"
| "DownstreamOf_downs w root (down # downs) rv =
     (case deref (StateOf w (Some down)) of
        None \<Rightarrow> None
      | Some st \<Rightarrow>
          (case DownstreamOf_ups w root down (GetUpstreams w st) rv of
             None \<Rightarrow> None
           | Some rv' \<Rightarrow> DownstreamOf_downs w root downs rv'))"

fun DownstreamOf_phases ::
  "Workflow \<Rightarrow> Steper option \<Rightarrow> Phase list \<Rightarrow> (Steper \<times> StatusError) list \<Rightarrow>
     (Steper \<times> StatusError) list option" where
  "DownstreamOf_phases w root [] rv = Some rv"
| "DownstreamOf_phases w root (phase # phases) rv =
     (case DownstreamOf_downs w root (bucket w phase) rv of
        None \<Rightarrow> None
      | Some rv' \<Rightarrow> DownstreamOf_phases w root phases rv')"

definition DownstreamOf :: "Workflow \<Rightarrow> Steper option \<Rightarrow> (Steper \<times> StatusError) list option" where
  "DownstreamOf w step =
     (if empty w then Some []
      else DownstreamOf_phases w
             (case step of None \<Rightarrow> None | Some s \<Rightarrow> map_of (tree w) s) WorkflowPhases [])"

text \<open>\<^verbatim>\<open>PhaseOf\<close>: the first phase whose bucket holds the root of the step.\<close>

fun PhaseOf_phases :: "Workflow \<Rightarrow> Steper option \<Rightarrow> Phase list \<Rightarrow> Phase" where
  "PhaseOf_phases w root [] = PhaseUnknown"
| "PhaseOf_phases w root (phase # phases) =
     (case map_of (steps w) phase of
        None \<Rightarrow> PhaseOf_phases w root phases
      | Some b \<Rightarrow>
          (case root of
             None \<Rightarrow> PhaseOf_phases w root phases
           | Some r \<Rightarrow> if r \<in> set b then phase else PhaseOf_phases w root phases))"

definition PhaseOf :: "Workflow \<Rightarrow> Steper option \<Rightarrow> Phase option" where
  "PhaseOf w step =
     (if empty w then Some PhaseUnknown
      else (case RootOf w step of
              None \<Rightarrow> None
            | Some root \<Rightarrow> Some (PhaseOf_phases w root WorkflowPhases)))"

fun IsPhaseTerminated_steps :: "Workflow \<Rightarrow> Steper list \<Rightarrow> bool option" where
  "IsPhaseTerminated_steps w [] = Some True"
| "IsPhaseTerminated_steps w (step # rest) =
     (case deref (StateOf w (Some step)) of
        None \<Rightarrow> None
      | Some st \<Rightarrow>
          if \<not> IsTerminated_status (GetStatus w st) then Some False
          else IsPhaseTerminated_steps w rest)"

definition IsPhaseTerminated :: "Workflow \<Rightarrow> Phase \<Rightarrow> bool option" where
  "IsPhaseTerminated w phase =
     (if empty w then Some True else IsPhaseTerminated_steps w (bucket w phase))"

fun IsTerminated_phases :: "Workflow \<Rightarrow> Phase list \<Rightarrow> bool option" where
  "IsTerminated_phases w [] = Some True"
| "IsTerminated_phases w (phase # phases) =
     (case IsPhaseTerminated w phase of
        None \<Rightarrow> None
      | Some t \<Rightarrow> if \<not> t then Some False else IsTerminated_phases w phases)"

definition IsTerminated :: "Workflow \<Rightarrow> bool option" where
  "IsTerminated w = IsTerminated_phases w WorkflowPhases"

section \<open>Building a workflow\<close>

text \<open>
  Modelled from the spec: \<^verbatim>\<open>StepTree.Add\<close> is declared outside \<^verbatim>\<open>workflow.go\<close>. It
  registers the step as a root and every descendant under its container, and returns the
  descendants that were roots before. \<^verbatim>\<open>IsRoot\<close> holds iff the tree maps the step to
  itself.
\<close>

fun tree_Add_under ::
  "Steper \<Rightarrow> Steper \<Rightarrow> (Steper \<times> Steper) list \<times> Steper list \<Rightarrow>
     (Steper \<times> Steper) list \<times> Steper list"
and tree_Add_all ::
  "Steper \<Rightarrow> Steper list \<Rightarrow> (Steper \<times> Steper) list \<times> Steper list \<Rightarrow>
     (Steper \<times> Steper) list \<times> Steper list" where
  "tree_Add_under parent (Steper n cs) (t, oldRoots) =
     tree_Add_all (Steper n cs) cs
       (AList.update (Steper n cs) parent t,
        if map_of t (Steper n cs) = Some (Steper n cs) then List.insert (Steper n cs) oldRoots
        else oldRoots)"
| "tree_Add_all parent [] acc = acc"
| "tree_Add_all parent (c # cs) acc = tree_Add_all parent cs (tree_Add_under parent c acc)"

definition tree_Add :: "Steper \<Rightarrow> (Steper \<times> Steper) list \<Rightarrow> (Steper \<times> Steper) list \<times> Steper list" where
  "tree_Add step t =
     (case step of Steper n cs \<Rightarrow> tree_Add_all step cs (AList.update step step t, []))"

definition IsRoot :: "(Steper \<times> Steper) list \<Rightarrow> Steper \<Rightarrow> bool" where
  "IsRoot t step = (map_of t step = Some step)"

text \<open>
  Modelled from the spec: \<^verbatim>\<open>MergeConfig\<close> and \<^verbatim>\<open>AddUpstream\<close> of \<^verbatim>\<open>State\<close>. The upstream
  sets are united (an edge added twice is one edge); an option that the merged
  configuration sets replaces the one of the state.
\<close>

definition Merge :: "StepConfig \<Rightarrow> StepConfig \<Rightarrow> StepConfig" where
  "Merge sc other =
     \<lparr>Upstreams = fold List.insert (Upstreams other) (Upstreams sc),
      StepOpt = (case StepOpt other of None \<Rightarrow> StepOpt sc | Some opt \<Rightarrow> Some opt)\<rparr>"

definition MergeConfig :: "ref \<Rightarrow> StepConfig \<Rightarrow> Workflow \<Rightarrow> Workflow" where
  "MergeConfig r sc w = w\<lparr>heap := (heap w)(r := (heap w r)\<lparr>Config := Merge (Config (heap w r)) sc\<rparr>)\<rparr>"

definition AddUpstream :: "ref \<Rightarrow> Steper \<Rightarrow> Workflow \<Rightarrow> Workflow" where
  "AddUpstream r up w =
     w\<lparr>heap := (heap w)(r := (heap w r)
         \<lparr>Config := (Config (heap w r))\<lparr>Upstreams := List.insert up (Upstreams (Config (heap w r)))\<rparr>\<rparr>)\<rparr>"

text \<open>
  The loop of \<^verbatim>\<open>addStep\<close> over the phases, for one old root: where the old root is in a
  bucket, the new root is added and the old root deleted.
\<close>

fun replace_in_phases :: "Steper \<Rightarrow> Steper \<Rightarrow> (Phase \<times> Steper list) list \<Rightarrow> (Phase \<times> Steper list) list" where
  "replace_in_phases old step [] = []"
| "replace_in_phases old step ((p, b) # rest) =
     (p, if old \<in> set b then removeAll old (List.insert step b) else b)
       # replace_in_phases old step rest"

text \<open>
  The loop of \<^verbatim>\<open>addStep\<close> over the old roots that \<^verbatim>\<open>tree.Add\<close> returned. An old root
  without a state would be a \<^verbatim>\<open>nil\<close> dereference.
\<close>

fun migrate :: "Steper \<Rightarrow> Steper list \<Rightarrow> Workflow \<Rightarrow> Workflow option" where
  "migrate step [] w = Some w"
| "migrate step (old # olds) w =
     (case map_of (state w) step of
        None \<Rightarrow> None
      | Some st \<Rightarrow>
          (case map_of (state w) old of
             None \<Rightarrow> None
           | Some ost \<Rightarrow>
               migrate step olds
                 ((MergeConfig st (Config (heap w ost)) w)
                    \<lparr>state := AList.delete old (state w),
                     steps := replace_in_phases old step (steps w)\<rparr>)))"

text \<open>
  \<^verbatim>\<open>addStep\<close> up to the test of \<^verbatim>\<open>config\<close> (lines 84 to 103): this is all that
  \<^verbatim>\<open>addStep(phase, step, nil)\<close> does for a step that is not \<^verbatim>\<open>nil\<close>. Adding to a bucket
  that does not exist writes to a \<^verbatim>\<open>nil\<close> map, a panic.
\<close>

definition addStep_new :: "Phase \<Rightarrow> Steper \<Rightarrow> Workflow \<Rightarrow> Workflow option" where
  "addStep_new phase step w =
     (case map_of (steps w) phase of
        None \<Rightarrow> None
      | Some b \<Rightarrow>
          (let w1 = w\<lparr>steps := AList.update phase (List.insert step b) (steps w)\<rparr> in
           case StateOf w1 (Some step) of
             None \<Rightarrow> None
           | Some (Some st) \<Rightarrow> Some w1
           | Some None \<Rightarrow>
               (let r = next_ref w1;
                    w2 = w1\<lparr>state := AList.update step r (state w1),
                            heap := (heap w1)(r := State0), next_ref := Suc r\<rparr>;
                    added = tree_Add step (tree w2)
                in migrate step (snd added) (w2\<lparr>tree := fst added\<rparr>))))"

text \<open>
  The loop of \<^verbatim>\<open>setUpstream\<close> that looks for the lowest workflow managing both steps. It
  is given one move per entry of the tree and one more, as \<open>climb\<close> is.
\<close>

fun setUpstream_climb :: "nat \<Rightarrow> Steper \<Rightarrow> Steper \<Rightarrow> Steper option \<Rightarrow> Workflow \<Rightarrow> Workflow option" where
  "setUpstream_climb 0 step up ancestor w = None"
| "setUpstream_climb (Suc n) step up ancestor w =
     (case ancestor of
        None \<Rightarrow> Some w
      | Some a \<Rightarrow>
          (case (case (nested_StateOf w a, nested_RootOf w a) of
                   (Some sf, Some rf) \<Rightarrow>
                     if sf up \<noteq> None then
                       Some (case rf step of
                               None \<Rightarrow> None
                             | Some root \<Rightarrow>
                                 (case sf root of
                                    None \<Rightarrow> None
                                  | Some st \<Rightarrow> Some (AddUpstream st up w)))
                     else None
                 | _ \<Rightarrow> None) of
             Some res \<Rightarrow> res
           | None \<Rightarrow>
               if IsRoot (tree w) a then
                 (case deref (StateOf w (Some a)) of
                    None \<Rightarrow> None
                  | Some st \<Rightarrow> Some (AddUpstream st up w))
               else setUpstream_climb n step up (map_of (tree w) a) w))"

definition setUpstream :: "Phase \<Rightarrow> Steper \<Rightarrow> Steper \<Rightarrow> Workflow \<Rightarrow> Workflow option" where
  "setUpstream phase step up w =
     (case addStep_new phase up w of
        None \<Rightarrow> None
      | Some w1 \<Rightarrow>
          (case StateOf w1 (Some up) of
             None \<Rightarrow> None
           | Some None \<Rightarrow>
               (case RootOf w1 (Some step) of
                  None \<Rightarrow> None
                | Some root \<Rightarrow>
                    (case deref (StateOf w1 root) of
                       None \<Rightarrow> None
                     | Some st \<Rightarrow> Some (AddUpstream st up w1)))
           | Some (Some ust) \<Rightarrow>
               setUpstream_climb (Suc (length (tree w1))) step up (map_of (tree w1) step) w1))"

fun setUpstreams :: "Phase \<Rightarrow> Steper \<Rightarrow> Steper list \<Rightarrow> Workflow \<Rightarrow> Workflow option" where
  "setUpstreams phase step [] w = Some w"
| "setUpstreams phase step (up # ups) w =
     (case setUpstream phase step up w of
        None \<Rightarrow> None
      | Some w' \<Rightarrow> setUpstreams phase step ups w')"

definition addStep :: "Phase \<Rightarrow> Steper option \<Rightarrow> StepConfig option \<Rightarrow> Workflow \<Rightarrow> Workflow option" where
  "addStep phase step config w =
     (case step of
        None \<Rightarrow> Some w
      | Some s \<Rightarrow>
          (case addStep_new phase s w of
             None \<Rightarrow> None
           | Some w1 \<Rightarrow>
               (case config of
                  None \<Rightarrow> Some w1
                | Some c \<Rightarrow>
                    (case setUpstreams phase s (Upstreams c) w1 of
                       None \<Rightarrow> None
                     | Some w2 \<Rightarrow>
                         (case deref (StateOf w2 (Some s)) of
                            None \<Rightarrow> None
                          | Some st \<Rightarrow> Some (MergeConfig st (c\<lparr>Upstreams := []\<rparr>) w2))))))"

text \<open>
  \<^verbatim>\<open>PhaseAdd\<close>: the bucket of the phase is made if there is none, then every pair that an
  adder yields is added. An adder is known by the pairs its \<^verbatim>\<open>Done\<close> yields.
\<close>

fun addSteps :: "Phase \<Rightarrow> (Steper option \<times> StepConfig option) list \<Rightarrow> Workflow \<Rightarrow> Workflow option" where
  "addSteps phase [] w = Some w"
| "addSteps phase ((step, config) # rest) w =
     (case addStep phase step config w of None \<Rightarrow> None | Some w' \<Rightarrow> addSteps phase rest w')"

definition PhaseAdd :: "Phase \<Rightarrow> (Steper option \<times> StepConfig option) list \<Rightarrow> Workflow \<Rightarrow> Workflow option" where
  "PhaseAdd phase was w =
     addSteps phase was
       (if map_of (steps w) phase = None then w\<lparr>steps := steps w @ [(phase, [])]\<rparr> else w)"

definition Add :: "(Steper option \<times> StepConfig option) list \<Rightarrow> Workflow \<Rightarrow> Workflow option" where
  "Add was w = PhaseAdd PhaseMain was w"

definition Init :: "(Steper option \<times> StepConfig option) list \<Rightarrow> Workflow \<Rightarrow> Workflow option" where
  "Init was w = PhaseAdd PhaseInit was w"

definition Defer :: "(Steper option \<times> StepConfig option) list \<Rightarrow> Workflow \<Rightarrow> Workflow option" where
  "Defer was w = PhaseAdd PhaseDefer was w"

section \<open>Preflight\<close>

fun isAllUpstreamScanned :: "(Steper \<times> StatusError) list \<Rightarrow> bool" where
  "isAllUpstreamScanned [] = True"
| "isAllUpstreamScanned ((up, se) # ups) =
     (if fst se \<noteq> scanned then False else isAllUpstreamScanned ups)"

fun isAnyUpstreamNotTerminated :: "(Steper \<times> StatusError) list \<Rightarrow> bool" where
  "isAnyUpstreamNotTerminated [] = False"
| "isAnyUpstreamNotTerminated ((up, se) # ups) =
     (if \<not> IsTerminated_status (fst se) then True else isAnyUpstreamNotTerminated ups)"

text \<open>The first loop of \<^verbatim>\<open>preflight\<close>: the steps whose status is not \<open>Pending\<close>.\<close>

fun unexpectStatusSteps :: "Workflow \<Rightarrow> (Steper \<times> ref) list \<Rightarrow> (Steper \<times> StepStatus) list" where
  "unexpectStatusSteps w [] = []"
| "unexpectStatusSteps w ((step, st) # rest) =
     (if GetStatus w st \<noteq> Pending then (step, GetStatus w st) # unexpectStatusSteps w rest
      else unexpectStatusSteps w rest)"

text \<open>
  One turn of the scanning loop over the state table: \<open>hasNewScanned\<close> is the flag of the
  source. The table itself does not change, only the statuses in the store.
\<close>

fun scan_pass :: "(Steper \<times> ref) list \<Rightarrow> bool \<Rightarrow> Workflow \<Rightarrow> (bool \<times> Workflow) option" where
  "scan_pass [] hasNewScanned w = Some (hasNewScanned, w)"
| "scan_pass ((step, st) # rest) hasNewScanned w =
     (if GetStatus w st = scanned then scan_pass rest hasNewScanned w
      else (case UpstreamOf w (Some step) of
              None \<Rightarrow> None
            | Some ups \<Rightarrow>
                if isAllUpstreamScanned ups then scan_pass rest True (SetStatus st scanned w)
                else scan_pass rest hasNewScanned w))"

definition unscanned :: "Workflow \<Rightarrow> nat" where
  "unscanned w = length (filter (\<lambda>(step, st). GetStatus w st \<noteq> scanned) (state w))"

function scan_loop :: "Workflow \<Rightarrow> Workflow option" where
  "scan_loop w =
     (case scan_pass (state w) False w of
        None \<Rightarrow> None
      | Some (hasNewScanned, w') \<Rightarrow> if hasNewScanned then scan_loop w' else Some w')"
  by pat_completeness auto
termination
proof (relation "measure unscanned")
  show "wf (measure unscanned)" by simp
next
  fix w :: Workflow and x2 :: "bool \<times> Workflow" and hasNew :: bool and w' :: Workflow
  assume pass: "scan_pass (state w) False w = Some x2" and x2: "(hasNew, w') = x2" and new: hasNew
  have inv: "state v' = state v \<and>
      (\<forall>r. GetStatus v r = scanned \<longrightarrow> GetStatus v' r = scanned) \<and>
      (b' \<and> \<not> b \<longrightarrow> (\<exists>(step, st) \<in> set l. GetStatus v st \<noteq> scanned \<and> GetStatus v' st = scanned))"
    if "scan_pass l b v = Some (b', v')" for l b v b' v'
    using that
  proof (induction l arbitrary: b v)
    case Nil
    then show ?case by simp
  next
    case (Cons a l)
    obtain step st where a: "a = (step, st)" by (cases a)
    show ?case
    proof (cases "GetStatus v st = scanned")
      case True
      with Cons.prems a have "scan_pass l b v = Some (b', v')" by simp
      from Cons.IH [OF this] show ?thesis by auto
    next
      case False
      with Cons.prems a obtain ups where ups: "UpstreamOf v (Some step) = Some ups"
        by (auto split: option.splits)
      show ?thesis
      proof (cases "isAllUpstreamScanned ups")
        case True
        let ?v = "SetStatus st scanned v"
        from Cons.prems a False ups True have "scan_pass l True ?v = Some (b', v')" by simp
        from Cons.IH [OF this]
        have st: "state v' = state ?v"
          and mono: "\<forall>r. GetStatus ?v r = scanned \<longrightarrow> GetStatus v' r = scanned"
          by auto
        have "GetStatus ?v st = scanned" by (simp add: GetStatus_def SetStatus_def)
        with mono have "GetStatus v' st = scanned" by blast
        moreover have "\<And>r. GetStatus v r = scanned \<Longrightarrow> GetStatus ?v r = scanned"
          by (simp add: GetStatus_def SetStatus_def)
        moreover have "state ?v = state v" by (simp add: SetStatus_def)
        ultimately show ?thesis using st mono False a by auto
      next
        case no: False
        with Cons.prems a False ups have "scan_pass l b v = Some (b', v')" by simp
        from Cons.IH [OF this] show ?thesis by auto
      qed
    qed
  qed
  have less: "length (filter P' xs) < length (filter P xs)"
    if "\<forall>x \<in> set xs. P' x \<longrightarrow> P x" and "\<exists>x \<in> set xs. P x \<and> \<not> P' x"
    for P P' :: "Steper \<times> ref \<Rightarrow> bool" and xs
    using that
  proof (induction xs)
    case Nil
    then show ?case by simp
  next
    case (Cons x xs)
    have le: "length (filter P' xs) \<le> length (filter P xs)"
      using Cons.prems(1)
      by (induction xs) (auto simp: le_Suc_eq)
    show ?case
    proof (cases "P x \<and> \<not> P' x")
      case True
      with le show ?thesis by simp
    next
      case False
      with Cons.prems have "\<exists>x \<in> set xs. P x \<and> \<not> P' x" by auto
      with Cons.IH Cons.prems(1) have "length (filter P' xs) < length (filter P xs)" by simp
      with Cons.prems(1) show ?thesis by auto
    qed
  qed
  from pass x2 have "scan_pass (state w) False w = Some (hasNew, w')" by simp
  from inv [OF this] new
  have st: "state w' = state w"
    and mono: "\<forall>r. GetStatus w r = scanned \<longrightarrow> GetStatus w' r = scanned"
    and ex: "\<exists>(step, st) \<in> set (state w). GetStatus w st \<noteq> scanned \<and> GetStatus w' st = scanned"
    by auto
  have "unscanned w' < unscanned w"
    unfolding unscanned_def st
    by (rule less) (use mono ex in auto)
  then show "(w', w) \<in> measure unscanned" by simp
qed

declare scan_loop.simps [simp del]

text \<open>
  The last loops of \<^verbatim>\<open>preflight\<close>: for every step that is not scanned, the upstreams that
  are not scanned are appended to its entry; then every status is reset.
\<close>

fun cycle_ups ::
  "Steper \<Rightarrow> (Steper \<times> StatusError) list \<Rightarrow> (Steper \<times> Steper list) list \<Rightarrow>
     (Steper \<times> Steper list) list" where
  "cycle_ups step [] acc = acc"
| "cycle_ups step ((up, statusErr) # ups) acc =
     (if fst statusErr \<noteq> scanned then
        cycle_ups step ups
          (AList.update step ((case map_of acc step of None \<Rightarrow> [] | Some l \<Rightarrow> l) @ [up]) acc)
      else cycle_ups step ups acc)"

fun stepsInCycle ::
  "Workflow \<Rightarrow> (Steper \<times> ref) list \<Rightarrow> (Steper \<times> Steper list) list \<Rightarrow>
     (Steper \<times> Steper list) list option" where
  "stepsInCycle w [] acc = Some acc"
| "stepsInCycle w ((step, st) # rest) acc =
     (if GetStatus w st = scanned then stepsInCycle w rest acc
      else (case UpstreamOf w (Some step) of
              None \<Rightarrow> None
            | Some ups \<Rightarrow> stepsInCycle w rest (cycle_ups step ups acc)))"

fun reset_all :: "(Steper \<times> ref) list \<Rightarrow> Workflow \<Rightarrow> Workflow" where
  "reset_all [] w = w"
| "reset_all ((step, st) # rest) w = reset_all rest (SetStatus st Pending w)"

definition preflight :: "Workflow \<Rightarrow> (error option \<times> Workflow) option" where
  "preflight w =
     (let unexpect = unexpectStatusSteps w (state w) in
      if length unexpect > 0 then Some (Some (ErrUnexpectStepInitStatus unexpect), w)
      else (case scan_loop w of
              None \<Rightarrow> None
            | Some w1 \<Rightarrow>
                (case stepsInCycle w1 (state w1) [] of
                   None \<Rightarrow> None
                 | Some cyc \<Rightarrow>
                     if length cyc > 0 then Some (Some (ErrCycleDependency cyc), w1)
                     else Some (None, reset_all (state w1) w1))))"

section \<open>The tick scheduler\<close>

text \<open>
  The first loop of \<^verbatim>\<open>tick\<close>: the bucket of the first phase that is not terminated;
  \<open>Some None\<close> is \<^verbatim>\<open>steps == nil\<close>.
\<close>

fun tick_phase :: "Workflow \<Rightarrow> Phase list \<Rightarrow> Steper list option option" where
  "tick_phase w [] = Some None"
| "tick_phase w (phase # phases) =
     (case IsPhaseTerminated w phase of
        None \<Rightarrow> None
      | Some t \<Rightarrow> if \<not> t then Some (map_of (steps w) phase) else tick_phase w phases)"

definition signalTick :: "Workflow \<Rightarrow> Workflow" where
  "signalTick w = w\<lparr>oneStepTerminated := Suc (oneStepTerminated w)\<rparr>"

text \<open>
  The body of the second loop of \<^verbatim>\<open>tick\<close> for one step. Starting the goroutine adds it to
  the wait group; what the goroutine does when the step has run is \<open>goroutine_exit\<close>.
\<close>

definition tick_step :: "Context \<Rightarrow> Steper \<Rightarrow> Workflow \<Rightarrow> Workflow option" where
  "tick_step ctx step w =
     (case deref (StateOf w (Some step)) of
        None \<Rightarrow> None
      | Some st \<Rightarrow>
          if GetStatus w st \<noteq> Pending then Some w
          else (case UpstreamOf w (Some step) of
                  None \<Rightarrow> None
                | Some ups \<Rightarrow>
                    if isAnyUpstreamNotTerminated ups then Some w
                    else
                      (let cond = (case StepOpt (Config (heap w st)) of
                                     None \<Rightarrow> DefaultCondition w
                                   | Some option \<Rightarrow>
                                       (case Condition option of
                                          None \<Rightarrow> DefaultCondition w
                                        | Some c \<Rightarrow> c));
                           nextStatus = cond ctx ups
                       in if IsTerminated_status nextStatus
                          then Some (signalTick (SetStatus st nextStatus w))
                          else Some ((SetStatus st Running w)
                                 \<lparr>waitGroup := waitGroup w @ [(step, st)]\<rparr>))))"

fun tick_steps :: "Context \<Rightarrow> Steper list \<Rightarrow> Workflow \<Rightarrow> Workflow option" where
  "tick_steps ctx [] w = Some w"
| "tick_steps ctx (step # rest) w =
     (case tick_step ctx step w of None \<Rightarrow> None | Some w' \<Rightarrow> tick_steps ctx rest w')"

definition tick :: "Context \<Rightarrow> Workflow \<Rightarrow> (bool \<times> Workflow) option" where
  "tick ctx w =
     (case tick_phase w WorkflowPhases of
        None \<Rightarrow> None
      | Some None \<Rightarrow> Some (True, w)
      | Some (Some b) \<Rightarrow>
          (case tick_steps ctx b w of None \<Rightarrow> None | Some w' \<Rightarrow> Some (False, w')))"

text \<open>
  The goroutine of a step, from the return of \<^verbatim>\<open>runStep\<close> with \<open>err\<close>: the error is
  classified, status and error are stored, and the deferred calls signal the next tick
  and leave the wait group.
\<close>

definition result_status :: "Workflow \<Rightarrow> error option \<Rightarrow> StepStatus" where
  "result_status w err =
     (case err of
        None \<Rightarrow> Succeeded
      | Some e \<Rightarrow>
          if DefaultIsCanceled w e then Canceled
          else if IsErrSkip w e then Skipped
          else Failed)"

definition goroutine_exit :: "Steper \<Rightarrow> ref \<Rightarrow> error option \<Rightarrow> Workflow \<Rightarrow> Workflow" where
  "goroutine_exit step st err w =
     (let w1 = SetError st err (SetStatus st (result_status w err) w)
      in signalTick (w1\<lparr>waitGroup := remove1 (step, st) (waitGroup w1)\<rparr>))"

section \<open>Do: the run of a workflow\<close>

text \<open>
  Where the coordinator of \<^verbatim>\<open>Do\<close> stands: waiting on the channel, inside the range loop of
  a tick with the steps still to visit, or out of the loop.
\<close>

datatype coordinator = Waiting | Ranging "Steper list" | Exited

text \<open>
  The moves of a run. The coordinator receives a signal and selects the phase, visits one
  step of the range loop, or ends the range loop; at any moment a goroutine in flight may
  come to its end with any error.
\<close>

inductive sched :: "Context \<Rightarrow> coordinator \<times> Workflow \<Rightarrow> coordinator \<times> Workflow \<Rightarrow> bool"
  for ctx :: Context where
  receive_done:
    "oneStepTerminated w = Suc n \<Longrightarrow> w' = w\<lparr>oneStepTerminated := n\<rparr> \<Longrightarrow>
     tick_phase w' WorkflowPhases = Some None \<Longrightarrow> sched ctx (Waiting, w) (Exited, w')"
| receive:
    "oneStepTerminated w = Suc n \<Longrightarrow> w' = w\<lparr>oneStepTerminated := n\<rparr> \<Longrightarrow>
     tick_phase w' WorkflowPhases = Some (Some b) \<Longrightarrow> sched ctx (Waiting, w) (Ranging b, w')"
| visit:
    "tick_step ctx step w = Some w' \<Longrightarrow> sched ctx (Ranging (step # rest), w) (Ranging rest, w')"
| range_end:
    "sched ctx (Ranging [], w) (Waiting, w)"
| exit:
    "(step, st) \<in> set (waitGroup w) \<Longrightarrow>
     sched ctx (c, w) (c, goroutine_exit step st err w)"

text \<open>
  Modelled from the spec: \<^verbatim>\<open>ErrWorkflow.IsNil\<close> is declared outside \<^verbatim>\<open>workflow.go\<close>; the
  aggregate is nil iff every entry's error is nil.
\<close>

definition ErrWorkflow_of :: "Workflow \<Rightarrow> error option" where
  "ErrWorkflow_of w =
     (let err = map (\<lambda>(step, st). (step, GetStatusError w st)) (state w)
      in if list_all (\<lambda>(step, se). snd se = None) err then None else Some (ErrWorkflow err))"

text \<open>
  \<^verbatim>\<open>Do\<close>, as the relation between the workflow at the call, the error returned and the
  workflow at the return. The mutex is held from the successful \<^verbatim>\<open>TryLock\<close> to the return.
\<close>

inductive Do :: "Context \<Rightarrow> Workflow \<Rightarrow> error option \<Rightarrow> Workflow \<Rightarrow> bool"
  for ctx :: Context where
  Do_running:
    "isRunning w \<Longrightarrow> Do ctx w (Some ErrWorkflowIsRunning) w"
| Do_empty:
    "\<not> isRunning w \<Longrightarrow> empty w \<Longrightarrow> Do ctx w None w"
| Do_preflight:
    "\<not> isRunning w \<Longrightarrow> \<not> empty w \<Longrightarrow> preflight w = Some (Some err, w') \<Longrightarrow>
     Do ctx w (Some err) w'"
| Do_run:
    "\<not> isRunning w \<Longrightarrow> \<not> empty w \<Longrightarrow> preflight w = Some (None, w1) \<Longrightarrow>
     (sched ctx)\<^sup>*\<^sup>* (Waiting, w1\<lparr>isRunning := True, oneStepTerminated := 1\<rparr>) (Exited, w2) \<Longrightarrow>
     waitGroup w2 = [] \<Longrightarrow>
     Do ctx w (ErrWorkflow_of w2) (w2\<lparr>isRunning := False\<rparr>)"

section \<open>Running one step\<close>

text \<open>
  \<^verbatim>\<open>makeDoForStep\<close>, applied to a context. \<open>input\<close> is \<^verbatim>\<open>state.Input\<close> and \<open>stepDo\<close> is
  \<^verbatim>\<open>step.Do\<close>: user code, known only by its outcome. The variable \<^verbatim>\<open>err\<close> that the
  deferred \<^verbatim>\<open>afterStep\<close> reads is \<^verbatim>\<open>nil\<close> until it is assigned, so it is \<^verbatim>\<open>nil\<close> when the
  body panics.
\<close>

definition makeDoForStep ::
  "Workflow \<Rightarrow> (Context \<Rightarrow> error option outcome) \<Rightarrow> (Context \<Rightarrow> error option outcome) \<Rightarrow>
     Steper \<Rightarrow> Context \<Rightarrow> error option outcome" where
  "makeDoForStep w input stepDo step ctx =
     (let do = (if DontPanic w then catchPanicAsError else (\<lambda>fn. fn)) in
      do (case notifyStep (notify w) ctx step of
            Panics v \<Rightarrow> Panics v
          | Returns (ctx', afters) \<Rightarrow>
              (case do (input ctx') of
                 Panics v \<Rightarrow> deferred (afterStep afters ctx' step None) (Panics v)
               | Returns (Some ierr) \<Rightarrow>
                   deferred (afterStep afters ctx' step (Some (ErrInput ierr)))
                     (Returns (Some (ErrInput ierr)))
               | Returns None \<Rightarrow>
                   (case stepDo ctx' of
                      Panics v \<Rightarrow> deferred (afterStep afters ctx' step None) (Panics v)
                    | Returns err \<Rightarrow> deferred (afterStep afters ctx' step err) (Returns err)))))"

text \<open>The error \<^verbatim>\<open>catchPanicAsError\<close> wraps for a recovered panic value.\<close>

definition recovered :: "panic_value \<Rightarrow> error" where
  "recovered r = ErrPanic (case r of PanicError t \<Rightarrow> t | PanicOther s \<Rightarrow> ErrorString s)"

section \<open>Concrete workflows\<close>

text \<open>
  Modelled from the spec: the default condition is declared outside \<^verbatim>\<open>workflow.go\<close>. It
  lets the step run iff every upstream is \<open>Succeeded\<close>. For the other case the spec names
  \<open>Canceled\<close> and \<open>Skipped\<close> without giving the rule; the model yields \<open>Canceled\<close> (an
  upstream failure cancels the step, spec 4.5).
\<close>

fun AllSucceeded :: "Context \<Rightarrow> (Steper \<times> StatusError) list \<Rightarrow> StepStatus" where
  "AllSucceeded ctx [] = Running"
| "AllSucceeded ctx ((up, se) # ups) =
     (if fst se \<noteq> Succeeded then Canceled else AllSucceeded ctx ups)"

text \<open>
  \<^verbatim>\<open>new(Workflow)\<close>: the zero value, in a world without nested workflows, where an error
  is a cancellation iff it is \<open>ErrCanceled\<close> and a skip iff it is \<open>ErrSkip\<close>.
\<close>

definition w0 :: Workflow where
  "w0 = \<lparr>tree = [], state = [], steps = [], waitGroup = [], isRunning = False,
          oneStepTerminated = 0, notify = [], DontPanic = False, heap = (\<lambda>r. State0),
          next_ref = 0, nested_StateOf = (\<lambda>s. None), nested_RootOf = (\<lambda>s. None),
          DefaultCondition = AllSucceeded, DefaultIsCanceled = (\<lambda>e. e = ErrCanceled),
          IsErrSkip = (\<lambda>e. e = ErrSkip)\<rparr>"

definition kept :: "Workflow \<Rightarrow> Workflow \<Rightarrow> bool" where
  "kept w w' =
     (tree w' = tree w \<and> state w' = state w \<and> steps w' = steps w \<and>
      nested_StateOf w' = nested_StateOf w \<and> nested_RootOf w' = nested_RootOf w \<and>
      DefaultCondition w' = DefaultCondition w \<and> DefaultIsCanceled w' = DefaultIsCanceled w \<and>
      IsErrSkip w' = IsErrSkip w \<and> isRunning w' = isRunning w \<and>
      (\<forall>r. Config (heap w' r) = Config (heap w r)))"

definition roots_of :: "Workflow \<Rightarrow> Steper list \<Rightarrow> Steper set" where
  "roots_of w ups = {k. \<exists>up \<in> set ups. RootOf w (Some up) = Some (Some k)}"

definition se_of :: "Workflow \<Rightarrow> Steper \<Rightarrow> StatusError option" where
  "se_of w k = map_option (GetStatusError w) (deref (StateOf w (Some k)))"

text \<open>the root is held by a bucket of one of the phases\<close>

definition in_phases :: "Workflow \<Rightarrow> Steper \<Rightarrow> Phase list \<Rightarrow> bool" where
  "in_phases w r ps = (\<exists>p \<in> set ps. \<exists>b. map_of (steps w) p = Some b \<and> r \<in> set b)"

definition upstream_map :: "Workflow \<Rightarrow> Steper option \<Rightarrow> Steper \<Rightarrow> StatusError option" where
  "upstream_map w step k =
     (case RootOf w step of
        Some (Some r) \<Rightarrow>
          (case deref (StateOf w (Some r)) of
             Some st \<Rightarrow>
               if \<not> empty w \<and> in_phases w r WorkflowPhases \<and> k \<in> roots_of w (GetUpstreams w st)
               then se_of w k else None
           | None \<Rightarrow> None)
      | _ \<Rightarrow> None)"

text \<open>statuses that are not \<open>Pending\<close> stay as they are\<close>

definition settled_kept :: "Workflow \<Rightarrow> Workflow \<Rightarrow> bool" where
  "settled_kept w w' = (\<forall>r. GetStatus w r \<noteq> Pending \<longrightarrow> heap w' r = heap w r)"

text \<open>what one range loop of a tick does to the store\<close>

definition dispatched :: "Workflow \<Rightarrow> Workflow \<Rightarrow> Steper list \<Rightarrow> ref \<Rightarrow> bool" where
  "dispatched w w' b r =
     (\<exists>step \<in> set b. deref (StateOf w (Some step)) = Some r \<and> GetStatus w r = Pending \<and>
        (GetStatus w' r = Running \<or> IsTerminated_status (GetStatus w' r)) \<and>
        (\<exists>ups. UpstreamOf w' (Some step) = Some ups \<and> \<not> isAnyUpstreamNotTerminated ups))"

definition sA :: Steper where "sA = Steper 1 []"
definition sB :: Steper where "sB = Steper 2 []"
definition sC :: Steper where "sC = Steper 3 []"

definition depends_on :: "Steper list \<Rightarrow> StepConfig" where
  "depends_on ups = \<lparr>Upstreams = ups, StepOpt = None\<rparr>"

text \<open>A depends on B, both in phase Main.\<close>

definition w_ab :: Workflow where
  "w_ab = w0\<lparr>tree := [(sA, sA), (sB, sB)], state := [(sA, 0), (sB, 1)],
       steps := [(PhaseMain, [sB, sA])],
       heap := (\<lambda>r. State0)(0 := State0\<lparr>Config := depends_on [sB]\<rparr>),
       next_ref := 2\<rparr>"

definition w_ab_ticked :: Workflow where
  "w_ab_ticked = (SetStatus 1 Running w_ab)\<lparr>waitGroup := [(sB, 1)]\<rparr>"

text \<open>Statuses along a run.\<close>

definition advances :: "StepStatus \<Rightarrow> StepStatus \<Rightarrow> bool" where
  "advances a b =
     (a = b \<or> (a = Pending \<and> (b = Running \<or> IsTerminated_status b)) \<or>
      (a = Running \<and> IsTerminated_status b))"

text \<open>
  The goroutines in flight are those of the states with status \<open>Running\<close>, one for each.
\<close>

definition inflight_running :: "Workflow \<Rightarrow> bool" where
  "inflight_running w =
     (distinct (map snd (waitGroup w)) \<and> list_all (\<lambda>(step, st). GetStatus w st = Running) (waitGroup w))"

text \<open>the marks of the scanning loop\<close>

definition marked :: "(Steper \<times> ref) list \<Rightarrow> Workflow \<Rightarrow> Workflow \<Rightarrow> bool" where
  "marked l w w' =
     (\<exists>h. w' = w\<lparr>heap := h\<rparr> \<and>
        (\<forall>r. h r = heap w r \<or> r \<in> snd ` set l \<and> h r = (heap w r)\<lparr>Status := scanned\<rparr>))"

text \<open>One step A in phase Main, and its run to the end.\<close>

definition w_single :: Workflow where
  "w_single = w0\<lparr>tree := [(sA, sA)], state := [(sA, 0)], steps := [(PhaseMain, [sA])], next_ref := 1\<rparr>"

definition w_start :: Workflow where
  "w_start = w_single\<lparr>isRunning := True, oneStepTerminated := 1\<rparr>"

definition w_received :: Workflow where
  "w_received = w_start\<lparr>oneStepTerminated := 0\<rparr>"

definition w_launched :: Workflow where
  "w_launched = (SetStatus 0 Running w_received)\<lparr>waitGroup := [(sA, 0)]\<rparr>"

definition w_exited :: Workflow where
  "w_exited = goroutine_exit sA 0 None w_launched"

definition w_end :: Workflow where
  "w_end = w_exited\<lparr>oneStepTerminated := 0\<rparr>"

definition w_done :: Workflow where
  "w_done = w_single\<lparr>heap := (\<lambda>r. State0)(0 := State0\<lparr>Status := Succeeded\<rparr>)\<rparr>"

text \<open>A and B depend on each other, C stands alone.\<close>

definition w_cycle :: Workflow where
  "w_cycle = w0\<lparr>tree := [(sA, sA), (sB, sB), (sC, sC)],
       state := [(sA, 0), (sB, 1), (sC, 2)],
       steps := [(PhaseMain, [sC, sB, sA])],
       heap := (\<lambda>r. State0)
         (0 := State0\<lparr>Config := depends_on [sB]\<rparr>, 1 := State0\<lparr>Config := depends_on [sA]\<rparr>),
       next_ref := 3\<rparr>"

text \<open>What \<open>DownstreamOf\<close> holds: the test of the source on the upstreams of a step.\<close>

definition depends_under :: "Workflow \<Rightarrow> Steper option \<Rightarrow> Steper \<Rightarrow> bool" where
  "depends_under w root down =
     (\<exists>st. deref (StateOf w (Some down)) = Some st \<and>
        (\<exists>up \<in> set (GetUpstreams w st). RootOf w (Some up) = Some root))"

text \<open>
  A composite K holds the composite M, which holds the step I; B depends on K.
\<close>

definition sI :: Steper where "sI = Steper 4 []"
definition sM :: Steper where "sM = Steper 5 [sI]"
definition sK :: Steper where "sK = Steper 6 [sM]"

definition w_nested :: Workflow where
  "w_nested = w0\<lparr>tree := [(sK, sK), (sM, sK), (sI, sM), (sB, sB)], state := [(sK, 0), (sB, 1)],
       steps := [(PhaseMain, [sB, sK])],
       heap := (\<lambda>r. State0)(1 := State0\<lparr>Config := depends_on [sK]\<rparr>),
       next_ref := 2\<rparr>"

text \<open>
  The goroutines that one range loop starts: each for a step of the list whose state was
  \<open>Pending\<close> and is \<open>Running\<close> now, with every upstream terminated.
\<close>

definition launched_ok :: "Workflow \<Rightarrow> Workflow \<Rightarrow> Steper list \<Rightarrow> (Steper \<times> ref) list \<Rightarrow> bool" where
  "launched_ok w w' b launched =
     (distinct (map snd launched) \<and>
      list_all (\<lambda>(step, st). step \<in> set b \<and> deref (StateOf w (Some step)) = Some st \<and>
          GetStatus w st = Pending \<and> GetStatus w' st = Running \<and>
          (\<exists>ups. UpstreamOf w' (Some step) = Some ups \<and>
             list_all (\<lambda>(u, se). IsTerminated_status (fst se)) ups)) launched)"

text \<open>A depends on B, and B has succeeded, or B has failed.\<close>

definition w_ab_succeeded :: Workflow where
  "w_ab_succeeded = SetStatus 1 Succeeded w_ab"

definition w_ab_failed :: Workflow where
  "w_ab_failed = SetStatus 1 Failed w_ab"

text \<open>
  The composite K, which holds M, is deferred; B in phase Main depends on M.
\<close>

definition w_defer :: Workflow where
  "w_defer = w0\<lparr>tree := [(sK, sK), (sM, sK), (sI, sM), (sB, sB)], state := [(sK, 0), (sB, 1)],
       steps := [(PhaseDefer, [sK]), (PhaseMain, [sM, sB])],
       heap := (\<lambda>r. State0)(1 := State0\<lparr>Config := depends_on [sM]\<rparr>),
       next_ref := 2\<rparr>"

definition w_defer_ticked :: Workflow where
  "w_defer_ticked = (SetStatus 0 Running w_defer)\<lparr>waitGroup := [(sM, 0)]\<rparr>"

section \<open>Panic recovery\<close>

lemma catchPanicAsError_Panics: "catchPanicAsError (Panics r) = Returns (Some (recovered r))"
  by (simp add: catchPanicAsError_def recovered_def)

lemma catchPanicAsError_Returns: "catchPanicAsError (Returns e) = Returns e"
  by (simp add: catchPanicAsError_def)

text \<open>
  C6. A panic inside the step's \<^verbatim>\<open>Do\<close>, or inside its input callbacks, becomes an
  \<^verbatim>\<open>ErrPanic\<close> error (around the panic's error value, or around the rendering of any other
  value) exactly when \<^verbatim>\<open>DontPanic\<close> is set; a panic of the input callbacks is then reported
  as an input error around that \<^verbatim>\<open>ErrPanic\<close>. With \<^verbatim>\<open>DontPanic\<close> unset the panic leaves
  the runner unrecovered. The notifier hooks are taken to return.
\<close>

theorem C6_panic_recovered_iff_DontPanic:
  assumes before: "notifyStep (notify w) ctx step = Returns (ctx', afters)"
    and after: "\<And>err. afterStep afters ctx' step err = Returns ()"
  shows "(input ctx' = Returns None \<and> stepDo ctx' = Panics r \<longrightarrow>
           makeDoForStep w input stepDo step ctx =
             (if DontPanic w then Returns (Some (recovered r)) else Panics r)) \<and>
         (input ctx' = Panics r \<longrightarrow>
           makeDoForStep w input stepDo step ctx =
             (if DontPanic w then Returns (Some (ErrInput (recovered r))) else Panics r))"
  using before after
  by (simp add: makeDoForStep_def deferred_def catchPanicAsError_Panics
      catchPanicAsError_Returns)

theorem C6_panic_recovered_witness:
  "makeDoForStep (w0\<lparr>DontPanic := True\<rparr>) (\<lambda>c. Returns None) (\<lambda>c. Panics (PanicOther ''boom''))
       (Steper 1 []) 0 = Returns (Some (ErrPanic (ErrorString ''boom''))) \<and>
   makeDoForStep w0 (\<lambda>c. Returns None) (\<lambda>c. Panics (PanicOther ''boom''))
       (Steper 1 []) 0 = Panics (PanicOther ''boom'') \<and>
   makeDoForStep (w0\<lparr>DontPanic := True\<rparr>) (\<lambda>c. Panics (PanicError ErrSkip)) (\<lambda>c. Returns None)
       (Steper 1 []) 0 = Returns (Some (ErrInput (ErrPanic ErrSkip))) \<and>
   makeDoForStep w0 (\<lambda>c. Panics (PanicError ErrSkip)) (\<lambda>c. Returns None)
       (Steper 1 []) 0 = Panics (PanicError ErrSkip)"
proof -
  have n: "\<And>b. notifyStep (notify (w0\<lparr>DontPanic := b\<rparr>)) 0 (Steper 1 []) = Returns (0, [])"
    by (simp add: w0_def)
  have a: "\<And>err. afterStep [] 0 (Steper 1 []) err = Returns ()" by simp
  note t = C6_panic_recovered_iff_DontPanic [OF n a]
  have e: "w0\<lparr>DontPanic := False\<rparr> = w0" "\<not> DontPanic w0" by (simp_all add: w0_def)
  show ?thesis
    using t [of "\<lambda>c. Returns None" "\<lambda>c. Panics (PanicOther ''boom'')" "PanicOther ''boom''" True]
      t [of "\<lambda>c. Returns None" "\<lambda>c. Panics (PanicOther ''boom'')" "PanicOther ''boom''" False]
      t [of "\<lambda>c. Panics (PanicError ErrSkip)" "\<lambda>c. Returns None" "PanicError ErrSkip" True]
      t [of "\<lambda>c. Panics (PanicError ErrSkip)" "\<lambda>c. Returns None" "PanicError ErrSkip" False]
    by (simp add: recovered_def e)
qed

lemma kept_refl: "kept w w" by (simp add: kept_def)
lemma kept_trans: "kept w w' \<Longrightarrow> kept w' w'' \<Longrightarrow> kept w w''" by (simp add: kept_def)

lemma kept_empty: "kept w w' \<Longrightarrow> empty w' = empty w" by (simp add: kept_def empty_def)
lemma kept_bucket: "kept w w' \<Longrightarrow> bucket w' p = bucket w p" by (simp add: kept_def bucket_def)
lemma kept_RootOf: "kept w w' \<Longrightarrow> RootOf w' x = RootOf w x"
  by (cases x) (simp_all add: kept_def RootOf_def empty_def)
lemma kept_StateOf: "kept w w' \<Longrightarrow> StateOf w' x = StateOf w x"
  unfolding StateOf_def
  by (simp add: kept_RootOf [of w w'] kept_empty [of w w'] kept_def
      cong: option.case_cong if_cong)
lemma kept_GetUpstreams: "kept w w' \<Longrightarrow> GetUpstreams w' r = GetUpstreams w r"
  by (simp add: kept_def GetUpstreams_def)

lemma kept_SetStatus: "kept w (SetStatus r s w)" by (simp add: kept_def SetStatus_def)
lemma kept_SetError: "kept w (SetError r e w)" by (simp add: kept_def SetError_def)
lemma kept_signalTick: "kept w (signalTick w)" by (simp add: kept_def signalTick_def)

text \<open>What \<open>UpstreamOf\<close> holds\<close>

lemma UpstreamOf_ups_cong:
  assumes "kept w w'"
    and "\<And>up u st. up \<in> set ups \<Longrightarrow> RootOf w (Some up) = Some (Some u) \<Longrightarrow>
           deref (StateOf w (Some u)) = Some st \<Longrightarrow> GetStatusError w' st = GetStatusError w st"
  shows "UpstreamOf_ups w' ups rv = UpstreamOf_ups w ups rv"
  using assms(2)
proof (induction ups arbitrary: rv)
  case Nil
  show ?case by simp
next
  case (Cons up ups)
  have IH: "\<And>rv. UpstreamOf_ups w' ups rv = UpstreamOf_ups w ups rv"
    by (rule Cons.IH) (use Cons.prems in auto)
  show ?case
    using Cons.prems [of up] IH
    by (auto simp: kept_RootOf [OF assms(1)] kept_StateOf [OF assms(1)] split: option.splits)
qed

lemma roots_of_Nil: "roots_of w [] = {}" by (simp add: roots_of_def)

lemma roots_of_Cons:
  "RootOf w (Some up) = Some (Some k) \<Longrightarrow> roots_of w (up # ups) = insert k (roots_of w ups)"
  by (auto simp: roots_of_def)

lemma UpstreamOf_ups_map:
  assumes "UpstreamOf_ups w ups rv = Some rv'"
  shows "map_of rv' = (\<lambda>k. if k \<in> roots_of w ups then se_of w k else map_of rv k) \<and>
         (\<forall>k \<in> roots_of w ups. se_of w k \<noteq> None) \<and>
         (\<forall>up \<in> set ups. \<exists>k. RootOf w (Some up) = Some (Some k)) \<and>
         (distinct (map fst rv) \<longrightarrow> distinct (map fst rv'))"
  using assms
proof (induction ups arbitrary: rv)
  case Nil
  then show ?case by (simp add: roots_of_Nil)
next
  case (Cons up ups)
  from Cons.prems obtain k st where k: "RootOf w (Some up) = Some (Some k)"
    and st: "deref (StateOf w (Some k)) = Some st"
    and rest: "UpstreamOf_ups w ups (AList.update k (GetStatusError w st) rv) = Some rv'"
    by (auto split: option.splits)
  note IH = Cons.IH [OF rest]
  have se: "se_of w k = Some (GetStatusError w st)" by (simp add: se_of_def st)
  have "map_of rv' = (\<lambda>x. if x \<in> roots_of w (up # ups) then se_of w x else map_of rv x)"
    using IH se by (auto simp: roots_of_Cons [OF k] update_conv' fun_eq_iff)
  moreover have "\<forall>x \<in> roots_of w (up # ups). se_of w x \<noteq> None"
    using IH se by (auto simp: roots_of_Cons [OF k])
  moreover have "\<forall>u \<in> set (up # ups). \<exists>x. RootOf w (Some u) = Some (Some x)"
    using IH k by auto
  moreover have "distinct (map fst rv) \<longrightarrow> distinct (map fst rv')"
    using IH by (simp add: distinct_update)
  ultimately show ?case by blast
qed

lemma in_phases_Nil: "\<not> in_phases w r []" by (simp add: in_phases_def)

lemma in_phases_Cons:
  "in_phases w r (p # ps) \<longleftrightarrow> (\<exists>b. map_of (steps w) p = Some b \<and> r \<in> set b) \<or> in_phases w r ps"
  by (auto simp: in_phases_def)

lemma UpstreamOf_phases_None: "UpstreamOf_phases w None ps rv = Some rv"
  by (induction ps) (auto split: option.splits)

lemma UpstreamOf_phases_map:
  assumes "UpstreamOf_phases w (Some r) ps rv = Some rv'"
  shows "(distinct (map fst rv) \<longrightarrow> distinct (map fst rv')) \<and>
         (if in_phases w r ps then
            (\<exists>st. deref (StateOf w (Some r)) = Some st \<and>
               map_of rv' = (\<lambda>k. if k \<in> roots_of w (GetUpstreams w st) then se_of w k else map_of rv k) \<and>
               (\<forall>k \<in> roots_of w (GetUpstreams w st). se_of w k \<noteq> None) \<and>
               (\<forall>up \<in> set (GetUpstreams w st). \<exists>k. RootOf w (Some up) = Some (Some k)))
          else rv' = rv)"
  using assms
proof (induction ps arbitrary: rv)
  case Nil
  then show ?case by (simp add: in_phases_Nil)
next
  case (Cons p ps)
  show ?case
  proof (cases "\<exists>b. map_of (steps w) p = Some b \<and> r \<in> set b")
    case False
    with Cons.prems have "UpstreamOf_phases w (Some r) ps rv = Some rv'"
      by (auto split: option.splits if_splits)
    from Cons.IH [OF this] have IH: "(distinct (map fst rv) \<longrightarrow> distinct (map fst rv')) \<and>
         (if in_phases w r ps then
            (\<exists>st. deref (StateOf w (Some r)) = Some st \<and>
               map_of rv' = (\<lambda>k. if k \<in> roots_of w (GetUpstreams w st) then se_of w k else map_of rv k) \<and>
               (\<forall>k \<in> roots_of w (GetUpstreams w st). se_of w k \<noteq> None) \<and>
               (\<forall>up \<in> set (GetUpstreams w st). \<exists>k. RootOf w (Some up) = Some (Some k)))
          else rv' = rv)" .
    have "in_phases w r (p # ps) = in_phases w r ps" using False by (auto simp: in_phases_Cons)
    with IH show ?thesis by presburger
  next
    case True
    with Cons.prems obtain st rv1 where st: "deref (StateOf w (Some r)) = Some st"
      and ups: "UpstreamOf_ups w (GetUpstreams w st) rv = Some rv1"
      and rest: "UpstreamOf_phases w (Some r) ps rv1 = Some rv'"
      by (auto split: option.splits if_splits)
    note U = UpstreamOf_ups_map [OF ups]
    note IH = Cons.IH [OF rest]
    have inp: "in_phases w r (p # ps)" using True by (simp add: in_phases_Cons)
    have "map_of rv' = (\<lambda>k. if k \<in> roots_of w (GetUpstreams w st) then se_of w k else map_of rv k)"
    proof (cases "in_phases w r ps")
      case True
      with IH st U show ?thesis by (auto simp: fun_eq_iff)
    next
      case False
      with IH U show ?thesis by simp
    qed
    moreover have "distinct (map fst rv) \<longrightarrow> distinct (map fst rv')" using IH U by simp
    ultimately show ?thesis using inp st U by auto
  qed
qed

lemma UpstreamOf_map:
  assumes "UpstreamOf w step = Some ups"
  shows "map_of ups = upstream_map w step \<and> distinct (map fst ups)"
proof (cases "empty w")
  case True
  with assms have "ups = []" by (simp add: UpstreamOf_def)
  then show ?thesis using True by (auto simp: upstream_map_def fun_eq_iff split: option.splits)
next
  case False
  with assms obtain root where root: "RootOf w step = Some root"
    and ph: "UpstreamOf_phases w root WorkflowPhases [] = Some ups"
    by (auto simp: UpstreamOf_def split: option.splits)
  show ?thesis
  proof (cases root)
    case None
    with ph have "ups = []" by (simp add: UpstreamOf_phases_None)
    then show ?thesis using root None by (auto simp: upstream_map_def fun_eq_iff)
  next
    case (Some r)
    note P = UpstreamOf_phases_map [OF ph [unfolded Some]]
    show ?thesis
    proof (cases "in_phases w r WorkflowPhases")
      case True
      with P False root Some show ?thesis
        by (auto simp: upstream_map_def fun_eq_iff)
    next
      case no: False
      with P have "ups = []" by simp
      then show ?thesis using root Some no
        by (auto simp: upstream_map_def fun_eq_iff split: option.splits)
    qed
  qed
qed

lemma isAnyUpstreamNotTerminated_iff:
  "isAnyUpstreamNotTerminated ups \<longleftrightarrow> (\<exists>(u, se) \<in> set ups. \<not> IsTerminated_status (fst se))"
  by (induction ups rule: isAnyUpstreamNotTerminated.induct) auto

lemma isAllUpstreamScanned_iff:
  "isAllUpstreamScanned ups \<longleftrightarrow> (\<forall>(u, se) \<in> set ups. fst se = scanned)"
  by (induction ups rule: isAllUpstreamScanned.induct) auto

lemma UpstreamOf_phases_cong:
  assumes k: "kept w w'"
    and H: "\<And>r st up k stu. root = Some r \<Longrightarrow> in_phases w r ps \<Longrightarrow>
        deref (StateOf w (Some r)) = Some st \<Longrightarrow> up \<in> set (GetUpstreams w st) \<Longrightarrow>
        RootOf w (Some up) = Some (Some k) \<Longrightarrow> deref (StateOf w (Some k)) = Some stu \<Longrightarrow>
        GetStatusError w' stu = GetStatusError w stu"
  shows "UpstreamOf_phases w' root ps rv = UpstreamOf_phases w root ps rv"
  using H
proof (induction ps arbitrary: rv)
  case Nil
  show ?case by simp
next
  case (Cons p ps)
  have steps: "steps w' = steps w" using k by (simp add: kept_def)
  have IH: "\<And>rv. UpstreamOf_phases w' root ps rv = UpstreamOf_phases w root ps rv"
    by (rule Cons.IH) (rule Cons.prems, auto simp: in_phases_Cons)
  show ?case
  proof (cases root)
    case None
    show ?thesis unfolding None UpstreamOf_phases_None ..
  next
    case (Some r)
    show ?thesis
    proof (cases "\<exists>b. map_of (steps w) p = Some b \<and> r \<in> set b")
      case False
      then show ?thesis using IH Some steps by (auto split: option.splits)
    next
      case True
      then have inp: "in_phases w r (p # ps)" by (simp add: in_phases_Cons)
      show ?thesis
      proof (cases "deref (StateOf w (Some r))")
        case None
        then show ?thesis using True Some steps kept_StateOf [OF k]
          by (auto split: option.splits)
      next
        case st: (Some st)
        have "UpstreamOf_ups w' (GetUpstreams w st) rv = UpstreamOf_ups w (GetUpstreams w st) rv"
          by (rule UpstreamOf_ups_cong [OF k]) (rule Cons.prems [OF Some inp st])
        then show ?thesis
          using True Some steps kept_StateOf [OF k] kept_GetUpstreams [OF k] st IH
          by (auto split: option.splits)
      qed
    qed
  qed
qed

lemma UpstreamOf_settled:
  assumes k: "kept w w'" and s: "settled_kept w w'"
    and u: "UpstreamOf w step = Some ups"
    and t: "\<not> isAnyUpstreamNotTerminated ups"
  shows "UpstreamOf w' step = Some ups"
proof (cases "empty w")
  case True
  then show ?thesis using u kept_empty [OF k] by (simp add: UpstreamOf_def)
next
  case False
  from u False obtain root where root: "RootOf w step = Some root"
    and ph: "UpstreamOf_phases w root WorkflowPhases [] = Some ups"
    by (auto simp: UpstreamOf_def split: option.splits)
  note M = UpstreamOf_map [OF u]
  have "UpstreamOf_phases w' root WorkflowPhases [] = UpstreamOf_phases w root WorkflowPhases []"
  proof (rule UpstreamOf_phases_cong [OF k])
    fix r st up k stu
    assume r: "root = Some r" and inp: "in_phases w r WorkflowPhases"
      and st: "deref (StateOf w (Some r)) = Some st" and up: "up \<in> set (GetUpstreams w st)"
      and kk: "RootOf w (Some up) = Some (Some k)" and stu: "deref (StateOf w (Some k)) = Some stu"
    have "k \<in> roots_of w (GetUpstreams w st)" using up kk by (auto simp: roots_of_def)
    then have "map_of ups k = Some (GetStatusError w stu)"
      using M root r st inp False stu by (simp add: upstream_map_def se_of_def)
    then have "(k, GetStatusError w stu) \<in> set ups" by (rule map_of_SomeD)
    with t have "IsTerminated_status (GetStatus w stu)"
      by (auto simp: isAnyUpstreamNotTerminated_iff GetStatusError_def GetStatus_def)
    then have "GetStatus w stu \<noteq> Pending" by auto
    with s have "heap w' stu = heap w stu" by (simp add: settled_kept_def)
    then show "GetStatusError w' stu = GetStatusError w stu" by (simp add: GetStatusError_def)
  qed
  then show ?thesis
    using False root ph kept_empty [OF k] kept_RootOf [OF k] by (simp add: UpstreamOf_def)
qed

lemma tick_step_effect:
  assumes "tick_step ctx step w = Some w'"
  shows "kept w w' \<and> settled_kept w w' \<and>
    (\<exists>st. deref (StateOf w (Some step)) = Some st \<and>
       (\<forall>r. r \<noteq> st \<longrightarrow> heap w' r = heap w r) \<and>
       Err (heap w' st) = Err (heap w st) \<and>
       (w' = w \<or>
        GetStatus w st = Pending \<and>
        (\<exists>ups. UpstreamOf w (Some step) = Some ups \<and> \<not> isAnyUpstreamNotTerminated ups) \<and>
        (IsTerminated_status (GetStatus w' st) \<and> waitGroup w' = waitGroup w \<or>
         GetStatus w' st = Running \<and> waitGroup w' = waitGroup w @ [(step, st)])))"
proof -
  from assms obtain st where st: "deref (StateOf w (Some step)) = Some st"
    by (auto simp: tick_step_def split: option.splits)
  show ?thesis
  proof (cases "GetStatus w st \<noteq> Pending")
    case True
    with assms st have "w' = w" by (simp add: tick_step_def)
    then show ?thesis using st by (simp add: kept_refl settled_kept_def)
  next
    case False
    with assms st obtain ups where ups: "UpstreamOf w (Some step) = Some ups"
      by (auto simp: tick_step_def split: option.splits)
    show ?thesis
    proof (cases "isAnyUpstreamNotTerminated ups")
      case True
      with assms st False ups have "w' = w" by (simp add: tick_step_def)
      then show ?thesis using st by (simp add: kept_refl settled_kept_def)
    next
      case no: False
      from assms st False ups no
      have "(\<exists>ns. IsTerminated_status ns \<and> w' = signalTick (SetStatus st ns w)) \<or>
            w' = (SetStatus st Running w)\<lparr>waitGroup := waitGroup w @ [(step, st)]\<rparr>"
        by (auto simp: tick_step_def Let_def split: if_splits)
      then show ?thesis
        using st False ups no
        by (auto simp: kept_def settled_kept_def SetStatus_def signalTick_def GetStatus_def)
    qed
  qed
qed

lemma settled_kept_refl: "settled_kept w w" by (simp add: settled_kept_def)

lemma settled_kept_trans: "settled_kept w w1 \<Longrightarrow> settled_kept w1 w' \<Longrightarrow> settled_kept w w'"
  by (simp add: settled_kept_def GetStatus_def)

lemma tick_steps_effect:
  assumes "tick_steps ctx b w = Some w'"
  shows "kept w w' \<and> settled_kept w w' \<and> (\<forall>r. heap w' r \<noteq> heap w r \<longrightarrow> dispatched w w' b r)"
  using assms
proof (induction b arbitrary: w)
  case Nil
  then show ?case by (simp add: kept_refl settled_kept_refl)
next
  case (Cons s rest)
  from Cons.prems obtain w1 where one: "tick_step ctx s w = Some w1"
    and more: "tick_steps ctx rest w1 = Some w'"
    by (auto split: option.splits)
  note E = tick_step_effect [OF one]
  note IH = Cons.IH [OF more]
  have k: "kept w w'" using E IH kept_trans by blast
  have sk: "settled_kept w w'" using E IH settled_kept_trans by blast
  have "dispatched w w' (s # rest) r" if ch: "heap w' r \<noteq> heap w r" for r
  proof (cases "heap w1 r = heap w r")
    case True
    with ch have "heap w' r \<noteq> heap w1 r" by simp
    with IH have "dispatched w1 w' rest r" by blast
    then show ?thesis
      using True E by (auto simp: dispatched_def kept_StateOf GetStatus_def)
  next
    case False
    from E obtain st where st: "deref (StateOf w (Some s)) = Some st"
      and fr: "\<forall>r. r \<noteq> st \<longrightarrow> heap w1 r = heap w r"
      and ef: "w1 = w \<or>
        GetStatus w st = Pending \<and>
        (\<exists>ups. UpstreamOf w (Some s) = Some ups \<and> \<not> isAnyUpstreamNotTerminated ups) \<and>
        (IsTerminated_status (GetStatus w1 st) \<and> waitGroup w1 = waitGroup w \<or>
         GetStatus w1 st = Running \<and> waitGroup w1 = waitGroup w @ [(s, st)])"
      by blast
    from False fr have r: "r = st" by blast
    from False ef have p: "GetStatus w st = Pending"
      and now: "IsTerminated_status (GetStatus w1 st) \<or> GetStatus w1 st = Running" by auto
    from False ef obtain ups where ups: "UpstreamOf w (Some s) = Some ups"
      and t: "\<not> isAnyUpstreamNotTerminated ups" by auto
    from now have "GetStatus w1 st \<noteq> Pending" by auto
    with IH have "heap w' st = heap w1 st" by (simp add: settled_kept_def)
    then have "GetStatus w' st = GetStatus w1 st" by (simp add: GetStatus_def)
    moreover have "UpstreamOf w' (Some s) = Some ups"
      by (rule UpstreamOf_settled [OF k sk ups t])
    ultimately show ?thesis using st p now t r by (auto simp: dispatched_def)
  qed
  with k sk show ?case by blast
qed

lemma IsPhaseTerminated_False_bucket:
  "IsPhaseTerminated w p = Some False \<Longrightarrow> map_of (steps w) p = Some (bucket w p)"
  by (auto simp: IsPhaseTerminated_def bucket_def split: if_splits option.splits)

lemma tick_phase_selects:
  assumes "tick_phase w ps = Some x"
  shows "(x = None \<and> (\<forall>q \<in> set ps. IsPhaseTerminated w q = Some True)) \<or>
         (\<exists>pre p post. ps = pre @ p # post \<and> (\<forall>q \<in> set pre. IsPhaseTerminated w q = Some True) \<and>
            IsPhaseTerminated w p = Some False \<and> x = Some (bucket w p))"
  using assms
proof (induction ps)
  case Nil
  then show ?case by simp
next
  case (Cons p ps)
  from Cons.prems obtain t where t: "IsPhaseTerminated w p = Some t"
    by (auto split: option.splits)
  show ?case
  proof (cases t)
    case True
    with Cons.prems t have "tick_phase w ps = Some x" by simp
    from Cons.IH [OF this] show ?thesis
    proof
      assume "x = None \<and> (\<forall>q \<in> set ps. IsPhaseTerminated w q = Some True)"
      with t True show ?thesis by simp
    next
      assume "\<exists>pre p post. ps = pre @ p # post \<and> (\<forall>q \<in> set pre. IsPhaseTerminated w q = Some True) \<and>
            IsPhaseTerminated w p = Some False \<and> x = Some (bucket w p)"
      then obtain pre p' post where "ps = pre @ p' # post"
        "\<forall>q \<in> set pre. IsPhaseTerminated w q = Some True"
        "IsPhaseTerminated w p' = Some False" "x = Some (bucket w p')" by blast
      with t True have "p # ps = (p # pre) @ p' # post \<and>
        (\<forall>q \<in> set (p # pre). IsPhaseTerminated w q = Some True) \<and>
        IsPhaseTerminated w p' = Some False \<and> x = Some (bucket w p')" by simp
      then show ?thesis by blast
    qed
  next
    case False
    with Cons.prems t have "x = map_of (steps w) p" by simp
    with t False have "p # ps = [] @ p # ps \<and> (\<forall>q \<in> set []. IsPhaseTerminated w q = Some True) \<and>
        IsPhaseTerminated w p = Some False \<and> x = Some (bucket w p)"
      by (simp add: IsPhaseTerminated_False_bucket)
    then show ?thesis by blast
  qed
qed

lemma tick_selects_earliest_phase:
  assumes "tick ctx w = Some (done, w')"
  shows "(done \<longrightarrow> w' = w \<and> (\<forall>p \<in> set WorkflowPhases. IsPhaseTerminated w p = Some True)) \<and>
         (\<not> done \<longrightarrow>
           (\<exists>pre p post. WorkflowPhases = pre @ p # post \<and>
              (\<forall>q \<in> set pre. IsPhaseTerminated w q = Some True) \<and>
              IsPhaseTerminated w p = Some False \<and>
              (\<forall>r. heap w' r \<noteq> heap w r \<longrightarrow>
                 (\<exists>step \<in> set (bucket w p). deref (StateOf w (Some step)) = Some r))))"
proof -
  from assms obtain x where x: "tick_phase w WorkflowPhases = Some x"
    by (auto simp: tick_def split: option.splits)
  from tick_phase_selects [OF x] show ?thesis
  proof
    assume "x = None \<and> (\<forall>q \<in> set WorkflowPhases. IsPhaseTerminated w q = Some True)"
    with assms x show ?thesis by (simp add: tick_def)
  next
    assume "\<exists>pre p post. WorkflowPhases = pre @ p # post \<and>
        (\<forall>q \<in> set pre. IsPhaseTerminated w q = Some True) \<and>
        IsPhaseTerminated w p = Some False \<and> x = Some (bucket w p)"
    then obtain pre p post where sel: "WorkflowPhases = pre @ p # post"
      "\<forall>q \<in> set pre. IsPhaseTerminated w q = Some True"
      "IsPhaseTerminated w p = Some False" and xb: "x = Some (bucket w p)" by blast
    from assms x xb have nd: "\<not> done" and ts: "tick_steps ctx (bucket w p) w = Some w'"
      by (auto simp: tick_def split: option.splits)
    from tick_steps_effect [OF ts]
    have "\<forall>r. heap w' r \<noteq> heap w r \<longrightarrow>
        (\<exists>step \<in> set (bucket w p). deref (StateOf w (Some step)) = Some r)"
      by (auto simp: dispatched_def)
    with sel nd show ?thesis by blast
  qed
qed

lemmas build_defs = Add_def Init_def Defer_def PhaseAdd_def addStep_def addStep_new_def w0_def
  sA_def sB_def sC_def depends_on_def StateOf_def empty_def tree_Add_def State0_def setUpstream_def
  RootOf_def deref_def IsRoot_def AddUpstream_def MergeConfig_def Merge_def

lemmas run_defs = w0_def sA_def sB_def sC_def depends_on_def StateOf_def empty_def State0_def
  RootOf_def deref_def GetStatus_def GetStatusError_def GetUpstreams_def SetStatus_def SetError_def
  UpstreamOf_def WorkflowPhases_def IsPhaseTerminated_def bucket_def tick_def tick_step_def
  signalTick_def

lemma w_ab_built: "Add [(Some sA, Some (depends_on [sB]))] w0 = Some w_ab"
  by (simp add: build_defs w_ab_def fun_eq_iff)

lemma tick_w_ab: "tick 0 w_ab = Some (False, w_ab_ticked)"
  by (simp add: run_defs w_ab_def w_ab_ticked_def)

lemma advances_refl: "advances a a" by (simp add: advances_def)

lemma advances_trans: "advances a b \<Longrightarrow> advances b c \<Longrightarrow> advances a c"
  by (cases a; cases b; cases c; simp add: advances_def)

lemma advances_terminated: "IsTerminated_status a \<Longrightarrow> advances a b \<Longrightarrow> b = a"
  by (cases a; simp add: advances_def)

lemma result_status_terminated: "IsTerminated_status (result_status w err)"
  by (simp add: result_status_def split: option.splits)

lemma distinct_map_snd_remove1:
  "distinct (map snd xs) \<Longrightarrow> distinct (map snd (remove1 x xs))"
proof (induction xs)
  case Nil
  then show ?case by simp
next
  case (Cons a xs)
  have "snd ` set (remove1 x xs) \<subseteq> snd ` set xs" using set_remove1_subset by fast
  with Cons show ?case by auto
qed

lemma sched_advances:
  assumes inv: "inflight_running w" and mv: "sched ctx (c, w) (c', w')"
  shows "inflight_running w' \<and> kept w w' \<and> (\<forall>r. advances (GetStatus w r) (GetStatus w' r))"
  using mv
proof (cases rule: sched.cases)
  case (receive_done n)
  then show ?thesis using inv
    by (simp add: inflight_running_def kept_def GetStatus_def advances_refl)
next
  case (receive n b)
  then show ?thesis using inv
    by (simp add: inflight_running_def kept_def GetStatus_def advances_refl)
next
  case (visit step rest)
  note E = tick_step_effect [OF visit(3)]
  from E obtain st where st: "deref (StateOf w (Some step)) = Some st"
    and fr: "\<forall>r. r \<noteq> st \<longrightarrow> heap w' r = heap w r"
    and ef: "w' = w \<or>
        GetStatus w st = Pending \<and>
        (\<exists>ups. UpstreamOf w (Some step) = Some ups \<and> \<not> isAnyUpstreamNotTerminated ups) \<and>
        (IsTerminated_status (GetStatus w' st) \<and> waitGroup w' = waitGroup w \<or>
         GetStatus w' st = Running \<and> waitGroup w' = waitGroup w @ [(step, st)])"
    by blast
  have k: "kept w w'" using E by blast
  show ?thesis
  proof (cases "w' = w")
    case True
    then show ?thesis using inv by (simp add: kept_refl advances_refl)
  next
    case False
    with ef have p: "GetStatus w st = Pending"
      and now: "IsTerminated_status (GetStatus w' st) \<and> waitGroup w' = waitGroup w \<or>
         GetStatus w' st = Running \<and> waitGroup w' = waitGroup w @ [(step, st)]" by auto
    have notin: "st \<notin> snd ` set (waitGroup w)"
      using inv p by (auto simp: inflight_running_def list_all_iff)
    have old: "\<And>s r. (s, r) \<in> set (waitGroup w) \<Longrightarrow> GetStatus w' r = Running"
    proof -
      fix s r assume m: "(s, r) \<in> set (waitGroup w)"
      with notin have "r \<noteq> st" by force
      with fr have "heap w' r = heap w r" by simp
      with inv m show "GetStatus w' r = Running"
        by (auto simp: inflight_running_def list_all_iff GetStatus_def)
    qed
    have adv: "\<forall>r. advances (GetStatus w r) (GetStatus w' r)"
    proof
      fix r show "advances (GetStatus w r) (GetStatus w' r)"
      proof (cases "r = st")
        case True
        with p now show ?thesis by (auto simp: advances_def)
      next
        case False
        with fr show ?thesis by (simp add: GetStatus_def advances_refl)
      qed
    qed
    have "inflight_running w'"
      using now inv old notin by (auto simp: inflight_running_def list_all_iff)
    with k adv show ?thesis by blast
  qed
next
  case range_end
  then show ?thesis using inv by (simp add: kept_refl advances_refl)
next
  case (exit step st err)
  from inv exit(3) have run: "GetStatus w st = Running"
    by (auto simp: inflight_running_def list_all_iff)
  have heap': "heap w' = (heap w)(st := (heap w st)\<lparr>Status := result_status w err, Err := err\<rparr>)"
    using exit(2) by (simp add: goroutine_exit_def Let_def SetError_def SetStatus_def signalTick_def)
  have wg: "waitGroup w' = remove1 (step, st) (waitGroup w)"
    using exit(2) by (simp add: goroutine_exit_def Let_def SetError_def SetStatus_def signalTick_def)
  have k: "kept w w'"
    using exit(2)
    by (simp add: goroutine_exit_def Let_def SetError_def SetStatus_def signalTick_def kept_def)
  have adv: "\<forall>r. advances (GetStatus w r) (GetStatus w' r)"
    using run heap' result_status_terminated [of w err]
    by (auto simp: GetStatus_def advances_def)
  have d: "distinct (map snd (waitGroup w))" using inv by (simp add: inflight_running_def)
  have gone: "st \<notin> snd ` set (remove1 (step, st) (waitGroup w))"
  proof
    assume "st \<in> snd ` set (remove1 (step, st) (waitGroup w))"
    then obtain s2 where m2: "(s2, st) \<in> set (remove1 (step, st) (waitGroup w))" by force
    then have m2': "(s2, st) \<in> set (waitGroup w)" using set_remove1_subset by fast
    from d have dd: "distinct (waitGroup w)" by (rule distinct_map [THEN iffD1, THEN conjunct1])
    from d have "inj_on snd (set (waitGroup w))" by (simp add: distinct_map)
    from inj_onD [OF this _ m2' exit(3)] have "s2 = step" by simp
    with m2 dd show False by simp
  qed
  have "distinct (map snd (waitGroup w'))" unfolding wg using d by (rule distinct_map_snd_remove1)
  moreover have "list_all (\<lambda>(step, st). GetStatus w' st = Running) (waitGroup w')"
    unfolding wg list_all_iff
  proof (clarify)
    fix s r assume m: "(s, r) \<in> set (remove1 (step, st) (waitGroup w))"
    with gone have "r \<noteq> st" by force
    moreover from m have "(s, r) \<in> set (waitGroup w)" using set_remove1_subset by fast
    ultimately show "GetStatus w' r = Running"
      using inv heap' by (auto simp: inflight_running_def list_all_iff GetStatus_def)
  qed
  ultimately show ?thesis using k adv by (simp add: inflight_running_def)
qed

lemma sched_run_advances:
  assumes "(sched ctx)\<^sup>*\<^sup>* (c, w) (c', w')" and "inflight_running w"
  shows "inflight_running w' \<and> kept w w' \<and> (\<forall>r. advances (GetStatus w r) (GetStatus w' r))"
  using assms
proof (induction rule: rtranclp_induct2)
  case refl
  then show ?case by (simp add: kept_refl advances_refl)
next
  case (step c1 w1 c2 w2)
  from step.IH [OF step.prems]
  have i1: "inflight_running w1" and k1: "kept w w1"
    and a1: "\<forall>r. advances (GetStatus w r) (GetStatus w1 r)" by auto
  from sched_advances [OF i1 step.hyps(2)]
  have "inflight_running w2" and "kept w1 w2"
    and "\<forall>r. advances (GetStatus w1 r) (GetStatus w2 r)" by auto
  with k1 a1 show ?case using kept_trans advances_trans by blast
qed

lemma marked_refl: "marked l w w"
  by (auto simp: marked_def intro: exI [of _ "heap w"])

lemma marked_trans:
  assumes "marked l w w1" and "marked l w1 w2"
  shows "marked l w w2"
proof -
  from assms(1) obtain h1 where h1: "w1 = w\<lparr>heap := h1\<rparr>"
    "\<forall>r. h1 r = heap w r \<or> r \<in> snd ` set l \<and> h1 r = (heap w r)\<lparr>Status := scanned\<rparr>"
    by (auto simp: marked_def)
  from assms(2) obtain h2 where h2: "w2 = w1\<lparr>heap := h2\<rparr>"
    "\<forall>r. h2 r = heap w1 r \<or> r \<in> snd ` set l \<and> h2 r = (heap w1 r)\<lparr>Status := scanned\<rparr>"
    by (auto simp: marked_def)
  have "w2 = w\<lparr>heap := h2\<rparr>" using h1(1) h2(1) by simp
  moreover have "\<forall>r. h2 r = heap w r \<or> r \<in> snd ` set l \<and> h2 r = (heap w r)\<lparr>Status := scanned\<rparr>"
  proof
    fix r
    from h1(2) have a: "h1 r = heap w r \<or> r \<in> snd ` set l \<and> h1 r = (heap w r)\<lparr>Status := scanned\<rparr>" ..
    from h2(2) h1(1) have b: "h2 r = h1 r \<or> r \<in> snd ` set l \<and> h2 r = (h1 r)\<lparr>Status := scanned\<rparr>"
      by simp
    from a b show "h2 r = heap w r \<or> r \<in> snd ` set l \<and> h2 r = (heap w r)\<lparr>Status := scanned\<rparr>"
      by auto
  qed
  ultimately show ?thesis by (auto simp: marked_def)
qed

lemma marked_mono: "marked l w w' \<Longrightarrow> set l \<subseteq> set l' \<Longrightarrow> marked l' w w'"
  by (fastforce simp: marked_def)

lemma marked_SetStatus: "marked [(step, st)] w (SetStatus st scanned w)"
proof -
  let ?h = "(heap w)(st := (heap w st)\<lparr>Status := scanned\<rparr>)"
  have "SetStatus st scanned w = w\<lparr>heap := ?h\<rparr>" by (simp add: SetStatus_def)
  moreover have "\<forall>r. ?h r = heap w r \<or>
      r \<in> snd ` set [(step, st)] \<and> ?h r = (heap w r)\<lparr>Status := scanned\<rparr>" by simp
  ultimately show ?thesis unfolding marked_def by blast
qed

lemma marked_kept:
  assumes "marked l w w'"
  shows "kept w w'"
proof -
  from assms obtain h where h: "w' = w\<lparr>heap := h\<rparr>"
    and hr: "\<forall>r. h r = heap w r \<or> r \<in> snd ` set l \<and> h r = (heap w r)\<lparr>Status := scanned\<rparr>"
    by (auto simp: marked_def)
  have "Config (h r) = Config (heap w r)" for r
  proof -
    from hr have "h r = heap w r \<or> h r = (heap w r)\<lparr>Status := scanned\<rparr>" by blast
    then show ?thesis by auto
  qed
  with h show ?thesis by (simp add: kept_def)
qed

lemma scan_pass_marked:
  "scan_pass l b w = Some (b', w') \<Longrightarrow> marked l w w'"
proof (induction l arbitrary: b w)
  case Nil
  then show ?case by (simp add: marked_refl)
next
  case (Cons a l)
  obtain step st where a: "a = (step, st)" by (cases a)
  show ?case
  proof (cases "scan_pass l b w = Some (b', w')")
    case True
    from Cons.IH [OF this] show ?thesis by (rule marked_mono) auto
  next
    case False
    with Cons.prems a have "scan_pass l True (SetStatus st scanned w) = Some (b', w')"
      by (auto split: if_splits option.splits)
    from Cons.IH [OF this] have "marked (a # l) (SetStatus st scanned w) w'"
      by (rule marked_mono) auto
    moreover have "marked (a # l) w (SetStatus st scanned w)"
      using marked_SetStatus [of step st w] a by (auto intro: marked_mono)
    ultimately show ?thesis using marked_trans by blast
  qed
qed

lemma scan_loop_marked: "scan_loop w = Some w' \<Longrightarrow> marked (state w) w w'"
proof (induction w rule: scan_loop.induct)
  case (1 w)
  from "1.prems" obtain b v where pass: "scan_pass (state w) False w = Some (b, v)"
    by (auto simp: scan_loop.simps [of w] split: option.splits)
  note m = scan_pass_marked [OF pass]
  show ?case
  proof (cases b)
    case False
    with "1.prems" pass have "w' = v" by (simp add: scan_loop.simps [of w])
    with m show ?thesis by simp
  next
    case True
    with "1.prems" pass have "scan_loop v = Some w'" by (simp add: scan_loop.simps [of w])
    from "1.IH" [OF pass refl True this] have "marked (state v) v w'" .
    moreover have "state v = state w" using m by (auto simp: marked_def)
    ultimately have "marked (state w) v w'" by simp
    from marked_trans [OF m this] show ?thesis .
  qed
qed

lemma reset_all_heap:
  "reset_all l w =
     w\<lparr>heap := (\<lambda>r. if r \<in> snd ` set l then (heap w r)\<lparr>Status := Pending\<rparr> else heap w r)\<rparr>"
proof (induction l arbitrary: w)
  case Nil
  show ?case by simp
next
  case (Cons a l)
  obtain step st where a: "a = (step, st)" by (cases a)
  let ?v = "SetStatus st Pending w"
  let ?f = "\<lambda>r. if r \<in> snd ` set l then (heap ?v r)\<lparr>Status := Pending\<rparr> else heap ?v r"
  let ?g = "\<lambda>r. if r \<in> snd ` set (a # l) then (heap w r)\<lparr>Status := Pending\<rparr> else heap w r"
  have "reset_all (a # l) w = reset_all l ?v" by (simp add: a)
  also have "\<dots> = ?v\<lparr>heap := ?f\<rparr>" by (rule Cons.IH)
  also have "\<dots> = w\<lparr>heap := ?g\<rparr>"
  proof -
    have "?f = ?g" by (rule ext) (auto simp: SetStatus_def a)
    then show ?thesis by (simp add: SetStatus_def)
  qed
  finally show ?case .
qed

lemma unexpectStatusSteps_Nil:
  "unexpectStatusSteps w l = [] \<longleftrightarrow> (\<forall>(step, st) \<in> set l. GetStatus w st = Pending)"
  by (induction l) (auto split: if_splits)

lemma preflight_cases:
  assumes "preflight w = Some (e, w1)"
  shows "(unexpectStatusSteps w (state w) \<noteq> [] \<and>
          e = Some (ErrUnexpectStepInitStatus (unexpectStatusSteps w (state w))) \<and> w1 = w) \<or>
         (unexpectStatusSteps w (state w) = [] \<and>
          (\<exists>v cyc. scan_loop w = Some v \<and> stepsInCycle v (state v) [] = Some cyc \<and>
             (cyc \<noteq> [] \<and> e = Some (ErrCycleDependency cyc) \<and> w1 = v \<or>
              cyc = [] \<and> e = None \<and> w1 = reset_all (state v) v)))"
  using assms
  by (auto simp: preflight_def Let_def split: if_splits option.splits)

lemma preflight_scanned:
  assumes "preflight w = Some (e, w1)" and "w1 \<noteq> w"
  obtains v where "unexpectStatusSteps w (state w) = []" and "scan_loop w = Some v"
    and "w1 = v \<or> e = None \<and> w1 = reset_all (state v) v"
  using preflight_cases [OF assms(1)] assms(2) by blast

lemma preflight_terminated_kept:
  assumes pf: "preflight w = Some (e, w1)" and t: "IsTerminated_status (GetStatus w r)"
  shows "GetStatus w1 r = GetStatus w r"
proof (cases "w1 = w")
  case True
  then show ?thesis by simp
next
  case False
  from preflight_scanned [OF pf False] obtain v
    where p: "unexpectStatusSteps w (state w) = []" and v: "scan_loop w = Some v"
      and w1: "w1 = v \<or> e = None \<and> w1 = reset_all (state v) v" by blast
  from t have np: "GetStatus w r \<noteq> Pending" by auto
  with p have nr: "r \<notin> snd ` set (state w)" by (auto simp: unexpectStatusSteps_Nil)
  from scan_loop_marked [OF v] nr have hv: "heap v r = heap w r" and sv: "state v = state w"
    by (auto simp: marked_def)
  from w1 show ?thesis
  proof
    assume "w1 = v"
    with hv show ?thesis by (simp add: GetStatus_def)
  next
    assume "e = None \<and> w1 = reset_all (state v) v"
    with hv sv nr show ?thesis by (simp add: reset_all_heap GetStatus_def)
  qed
qed

lemma preflight_nil_same:
  assumes pf: "preflight w = Some (None, w1)"
  shows "w1 = w"
proof (rule ccontr)
  assume ne: "w1 \<noteq> w"
  from preflight_cases [OF pf] ne obtain v
    where p: "unexpectStatusSteps w (state w) = []" and v: "scan_loop w = Some v"
      and w1: "w1 = reset_all (state v) v" by auto
  from scan_loop_marked [OF v] obtain h where h: "v = w\<lparr>heap := h\<rparr>"
    and hr: "\<forall>r. h r = heap w r \<or> r \<in> snd ` set (state w) \<and> h r = (heap w r)\<lparr>Status := scanned\<rparr>"
    by (auto simp: marked_def)
  have hv: "heap v = h" and sv: "state v = state w" using h by simp_all
  have w1h: "w1 = w\<lparr>heap := (\<lambda>r. if r \<in> snd ` set (state w) then (h r)\<lparr>Status := Pending\<rparr> else h r)\<rparr>"
    unfolding w1 reset_all_heap hv sv using h by simp
  have "(\<lambda>r. if r \<in> snd ` set (state w) then (h r)\<lparr>Status := Pending\<rparr> else h r) = heap w"
  proof
    fix r
    show "(if r \<in> snd ` set (state w) then (h r)\<lparr>Status := Pending\<rparr> else h r) = heap w r"
    proof (cases "r \<in> snd ` set (state w)")
      case True
      with p have "Status (heap w r) = Pending"
        by (auto simp: unexpectStatusSteps_Nil GetStatus_def)
      then have "(heap w r)\<lparr>Status := Pending\<rparr> = heap w r" by simp
      moreover from hr have "h r = heap w r \<or> h r = (heap w r)\<lparr>Status := scanned\<rparr>" by blast
      ultimately show ?thesis using True by auto
    next
      case False
      with hr show ?thesis by auto
    qed
  qed
  with w1h have "w1 = w" by simp
  with ne show False ..
qed

text \<open>
  C4, as amended. In a run, every move of the coordinator and of the goroutines takes a
  status along \<open>Pending\<close>, \<open>Running\<close>, terminated (from \<open>Pending\<close> to a terminated status
  at once when the condition says so), and a terminated status is never written over.
  Preflight does not write over a terminated status either, and when it returns
  \<^verbatim>\<open>nil\<close> it has left the workflow as it was; in between it marks statuses \<open>Pending\<close>
  with \<^verbatim>\<open>scanned\<close>, which is not a status of that sequence.
\<close>

theorem C4_status_advances:
  "(preflight w = Some (e, w1) \<longrightarrow>
      (\<forall>r. IsTerminated_status (GetStatus w r) \<longrightarrow> GetStatus w1 r = GetStatus w r) \<and>
      (e = None \<longrightarrow> w1 = w)) \<and>
   (inflight_running v \<and> (sched ctx)\<^sup>*\<^sup>* (c, v) (c', v') \<longrightarrow>
      inflight_running v' \<and>
      (\<forall>r. advances (GetStatus v r) (GetStatus v' r)) \<and>
      (\<forall>r. IsTerminated_status (GetStatus v r) \<longrightarrow> GetStatus v' r = GetStatus v r))"
proof (intro conjI impI allI)
  fix r assume "preflight w = Some (e, w1)" and "IsTerminated_status (GetStatus w r)"
  then show "GetStatus w1 r = GetStatus w r" by (rule preflight_terminated_kept)
next
  assume "preflight w = Some (e, w1)" and "e = None"
  then have "preflight w = Some (None, w1)" by simp
  then show "w1 = w" by (rule preflight_nil_same)
next
  assume a: "inflight_running v \<and> (sched ctx)\<^sup>*\<^sup>* (c, v) (c', v')"
  with sched_run_advances show "inflight_running v'" by blast
next
  fix r assume a: "inflight_running v \<and> (sched ctx)\<^sup>*\<^sup>* (c, v) (c', v')"
  with sched_run_advances show "advances (GetStatus v r) (GetStatus v' r)" by blast
next
  fix r assume a: "inflight_running v \<and> (sched ctx)\<^sup>*\<^sup>* (c, v) (c', v')"
    and t: "IsTerminated_status (GetStatus v r)"
  from a sched_run_advances have "advances (GetStatus v r) (GetStatus v' r)" by blast
  with t show "GetStatus v' r = GetStatus v r" by (rule advances_terminated)
qed

lemma Do_empty_only:
  assumes "Do ctx w res w'" and "empty w" and "\<not> isRunning w"
  shows "res = None \<and> w' = w"
  using assms(1)
proof (cases rule: Do.cases)
  case Do_running
  with assms(3) show ?thesis by simp
next
  case Do_empty
  then show ?thesis by simp
next
  case (Do_preflight err)
  with assms(2) show ?thesis by simp
next
  case (Do_run w1 w2)
  with assms(2) show ?thesis by simp
qed

text \<open>
  C10. \<^verbatim>\<open>Do\<close> on an empty workflow that is not running returns \<^verbatim>\<open>nil\<close> and leaves the
  workflow untouched (no preflight, no tick), and so does every repeated call: no error
  is ever reported.
\<close>

theorem C10_empty_workflow_returns_nil:
  assumes "empty w" and "\<not> isRunning w"
  shows "Do ctx w None w \<and> (\<forall>res w'. Do ctx w res w' \<longrightarrow> res = None \<and> w' = w) \<and>
         (\<forall>res w' res2 w''. Do ctx w res w' \<and> Do ctx w' res2 w'' \<longrightarrow> res2 = None \<and> w'' = w)"
proof (intro conjI allI impI)
  show "Do ctx w None w" using assms by (rule Do_empty [rotated])
next
  fix res w' assume "Do ctx w res w'"
  from Do_empty_only [OF this assms] show "res = None" "w' = w" by simp_all
next
  fix res w' res2 w'' assume a: "Do ctx w res w' \<and> Do ctx w' res2 w''"
  then have "w' = w" using Do_empty_only assms by blast
  with a have "Do ctx w res2 w''" by simp
  from Do_empty_only [OF this assms] show "res2 = None" "w'' = w" by simp_all
qed

lemmas single_defs = w_single_def w_start_def w_received_def w_launched_def w_exited_def
  w_end_def w_done_def goroutine_exit_def result_status_def

lemma w_single_built: "Add [(Some sA, None)] w0 = Some w_single"
  by (simp add: build_defs w_single_def fun_eq_iff)

lemma w_cycle_built:
  "Add [(Some sA, Some (depends_on [sB])), (Some sB, Some (depends_on [sA])), (Some sC, None)] w0
     = Some w_cycle"
  by (simp add: build_defs w_cycle_def fun_eq_iff)

lemma preflight_w_single: "preflight w_single = Some (None, w_single)"
proof -
  have "scan_loop w_single = Some (SetStatus 0 scanned w_single)"
    by (simp add: scan_loop.simps run_defs w_single_def)
  then show ?thesis
    by (simp add: preflight_def run_defs w_single_def fun_eq_iff)
qed

lemma run_w_single: "(sched 0)\<^sup>*\<^sup>* (Waiting, w_start) (Exited, w_end)"
proof -
  have "sched 0 (Waiting, w_start) (Ranging [sA], w_received)"
    by (rule sched.receive [where n = 0]) (simp_all add: run_defs single_defs)
  moreover have "sched 0 (Ranging [sA], w_received) (Ranging [], w_launched)"
    by (rule sched.visit) (simp add: run_defs single_defs)
  moreover have "sched 0 (Ranging [], w_launched) (Waiting, w_launched)"
    by (rule sched.range_end)
  moreover have "sched 0 (Waiting, w_launched) (Waiting, w_exited)"
    unfolding w_exited_def by (rule sched.exit) (simp add: w_launched_def)
  moreover have "sched 0 (Waiting, w_exited) (Exited, w_end)"
    by (rule sched.receive_done [where n = 0]) (simp_all add: run_defs single_defs)
  ultimately show ?thesis by (meson r_into_rtranclp rtranclp.rtrancl_into_rtrancl)
qed

lemma Do_w_single: "Do 0 w_single None w_done"
proof -
  have ne: "\<not> isRunning w_single" "\<not> empty w_single" by (simp_all add: run_defs w_single_def)
  have s: "w_single\<lparr>isRunning := True, oneStepTerminated := 1\<rparr> = w_start" by (simp add: w_start_def)
  have wg: "waitGroup w_end = []" by (simp add: run_defs single_defs)
  have "Do 0 w_single (ErrWorkflow_of w_end) (w_end\<lparr>isRunning := False\<rparr>)"
    by (rule Do_run [OF ne preflight_w_single]) (simp_all only: s run_w_single wg)
  moreover have "ErrWorkflow_of w_end = None" by (simp add: ErrWorkflow_of_def run_defs single_defs)
  moreover have "w_end\<lparr>isRunning := False\<rparr> = w_done"
    by (simp add: run_defs single_defs fun_eq_iff)
  ultimately show ?thesis by simp
qed

lemma preflight_w_done:
  "preflight w_done = Some (Some (ErrUnexpectStepInitStatus [(sA, Succeeded)]), w_done)"
  by (simp add: preflight_def run_defs single_defs)

lemma preflight_w_cycle:
  "preflight w_cycle =
     Some (Some (ErrCycleDependency [(sA, [sB]), (sB, [sA])]), SetStatus 2 scanned w_cycle)"
proof -
  have "scan_loop w_cycle = Some (SetStatus 2 scanned w_cycle)"
    by (simp add: scan_loop.simps run_defs w_cycle_def)
  then show ?thesis
    by (simp add: preflight_def run_defs w_cycle_def)
qed

lemma ErrWorkflow_of_not_HasRun: "ErrWorkflow_of w \<noteq> Some ErrWorkflowHasRun"
  by (simp add: ErrWorkflow_of_def Let_def)

lemma Do_never_HasRun: "\<not> Do ctx w (Some ErrWorkflowHasRun) w'"
proof
  assume "Do ctx w (Some ErrWorkflowHasRun) w'"
  then show False
  proof (cases rule: Do.cases)
    case Do_preflight
    then have "preflight w = Some (Some ErrWorkflowHasRun, w')" by simp
    from preflight_cases [OF this] show False by auto
  next
    case (Do_run w1 w2)
    with ErrWorkflow_of_not_HasRun [of w2] show False by simp
  qed
qed

lemma Do_while_running:
  assumes "(sched ctx)\<^sup>*\<^sup>* (c, v) (c', v')" and "isRunning v" and "Do ctx' v' res w''"
  shows "res = Some ErrWorkflowIsRunning \<and> w'' = v'"
proof -
  have "isRunning v'"
    using assms(1,2)
  proof (induction rule: rtranclp_induct2)
    case refl
    then show ?case .
  next
    case (step c1 v1 c2 v2)
    from step.hyps(2) step.IH [OF step.prems] show ?case
      by (cases rule: sched.cases)
        (auto simp: goroutine_exit_def Let_def SetError_def SetStatus_def signalTick_def
          dest: tick_step_effect simp: kept_def)
  qed
  with assms(3) show ?thesis by (cases rule: Do.cases) auto
qed

text \<open>
  C5. After the run of the workflow with the one step A has returned \<^verbatim>\<open>nil\<close>, the next
  call of \<^verbatim>\<open>Do\<close> returns \<^verbatim>\<open>ErrUnexpectStepInitStatus\<close> for A from preflight, and no call of
  \<^verbatim>\<open>Do\<close> ever returns \<^verbatim>\<open>ErrWorkflowHasRun\<close>.
\<close>

theorem C5_Do_after_run_is_unexpected_status:
  "Do 0 w_single None w_done \<and>
   Do 0 w_done (Some (ErrUnexpectStepInitStatus [(sA, Succeeded)])) w_done \<and>
   \<not> Do ctx w (Some ErrWorkflowHasRun) w'"
proof -
  have ne: "\<not> isRunning w_done" "\<not> empty w_done" by (simp_all add: run_defs single_defs)
  from Do_preflight [OF ne preflight_w_done] Do_w_single Do_never_HasRun show ?thesis by blast
qed

text \<open>
  C9. On the workflow where A and B depend on each other and C stands alone, preflight
  returns \<^verbatim>\<open>ErrCycleDependency\<close> and leaves the status of C at \<^verbatim>\<open>scanned\<close>: the return at
  lines 374 to 376 comes before the reset. The next call of \<^verbatim>\<open>Do\<close> reports that status.
\<close>

theorem C9_scanned_left_after_cycle_error:
  "preflight w_cycle =
     Some (Some (ErrCycleDependency [(sA, [sB]), (sB, [sA])]), SetStatus 2 scanned w_cycle) \<and>
   map_of (state w_cycle) sC = Some 2 \<and> GetStatus w_cycle 2 = Pending \<and>
   GetStatus (SetStatus 2 scanned w_cycle) 2 = scanned \<and>
   Do 0 (SetStatus 2 scanned w_cycle) (Some (ErrUnexpectStepInitStatus [(sC, scanned)]))
     (SetStatus 2 scanned w_cycle)"
proof -
  let ?v = "SetStatus 2 scanned w_cycle"
  have ne: "\<not> isRunning ?v" "\<not> empty ?v" by (simp_all add: run_defs w_cycle_def)
  have "preflight ?v = Some (Some (ErrUnexpectStepInitStatus [(sC, scanned)]), ?v)"
    by (simp add: preflight_def run_defs w_cycle_def)
  from Do_preflight [OF ne this] preflight_w_cycle show ?thesis
    by (simp add: run_defs w_cycle_def)
qed

theorem C4_scanned_in_preflight_counterexample:
  "GetStatus w_single 0 = Pending \<and>
   scan_loop w_single = Some (SetStatus 0 scanned w_single) \<and>
   GetStatus (SetStatus 0 scanned w_single) 0 = scanned \<and>
   \<not> advances Pending scanned"
  by (simp add: scan_loop.simps run_defs w_single_def advances_def)

theorem C4_status_advances_witness:
  "preflight w_single = Some (None, w_single) \<and>
   inflight_running w_start \<and> (sched 0)\<^sup>*\<^sup>* (Waiting, w_start) (Exited, w_end) \<and>
   inflight_running w_end \<and>
   (\<forall>r. advances (GetStatus w_start r) (GetStatus w_end r)) \<and>
   GetStatus w_start 0 = Pending \<and> GetStatus w_end 0 = Succeeded"
proof -
  have i: "inflight_running w_start" by (simp add: inflight_running_def run_defs single_defs)
  have s: "GetStatus w_start 0 = Pending" "GetStatus w_end 0 = Succeeded"
    by (simp_all add: run_defs single_defs)
  from C4_status_advances [of w_single None w_single w_start 0 Waiting Exited w_end]
    preflight_w_single i run_w_single s
  show ?thesis by blast
qed

theorem C10_empty_workflow_witness:
  "empty w0 \<and> \<not> isRunning w0 \<and> Do 0 w0 None w0 \<and>
   (\<forall>res w'. \<not> Do 0 w0 (Some res) w')"
proof -
  have e: "empty w0" "\<not> isRunning w0" by (simp_all add: empty_def w0_def)
  from C10_empty_workflow_returns_nil [OF e, of 0] e show ?thesis by blast
qed

lemma DownstreamOf_ups_keys:
  assumes "DownstreamOf_ups w root down ups rv = Some rv'"
  shows "fst ` set rv' =
           fst ` set rv \<union> (if \<exists>up \<in> set ups. RootOf w (Some up) = Some root then {down} else {})"
  using assms
proof (induction ups arbitrary: rv)
  case Nil
  then show ?case by simp
next
  case (Cons up ups)
  from Cons.prems obtain r where r: "RootOf w (Some up) = Some r" by (auto split: option.splits)
  show ?case
  proof (cases "r = root")
    case True
    with Cons.prems r obtain st where
      rest: "DownstreamOf_ups w root down ups (AList.update down (GetStatusError w st) rv) = Some rv'"
      by (auto split: option.splits)
    from Cons.IH [OF rest] r True show ?thesis by (auto simp: dom_update)
  next
    case False
    with Cons.prems r have "DownstreamOf_ups w root down ups rv = Some rv'" by simp
    from Cons.IH [OF this] r False show ?thesis by auto
  qed
qed

lemma DownstreamOf_downs_keys:
  assumes "DownstreamOf_downs w root downs rv = Some rv'"
  shows "fst ` set rv' = fst ` set rv \<union> {down \<in> set downs. depends_under w root down}"
  using assms
proof (induction downs arbitrary: rv)
  case Nil
  then show ?case by simp
next
  case (Cons down downs)
  from Cons.prems obtain st rv1 where st: "deref (StateOf w (Some down)) = Some st"
    and one: "DownstreamOf_ups w root down (GetUpstreams w st) rv = Some rv1"
    and rest: "DownstreamOf_downs w root downs rv1 = Some rv'"
    by (auto split: option.splits)
  have "fst ` set rv1 = fst ` set rv \<union> (if depends_under w root down then {down} else {})"
    using DownstreamOf_ups_keys [OF one] st by (simp add: depends_under_def)
  with Cons.IH [OF rest] show ?case by auto
qed

lemma DownstreamOf_phases_keys:
  assumes "DownstreamOf_phases w root ps rv = Some rv'"
  shows "fst ` set rv' =
           fst ` set rv \<union> {down. (\<exists>p \<in> set ps. down \<in> set (bucket w p)) \<and> depends_under w root down}"
  using assms
proof (induction ps arbitrary: rv)
  case Nil
  then show ?case by simp
next
  case (Cons p ps)
  from Cons.prems obtain rv1 where one: "DownstreamOf_downs w root (bucket w p) rv = Some rv1"
    and rest: "DownstreamOf_phases w root ps rv1 = Some rv'"
    by (auto split: option.splits)
  from DownstreamOf_downs_keys [OF one] Cons.IH [OF rest] show ?case by auto
qed

lemma in_bucket_iff: "r \<in> set (bucket w p) \<longleftrightarrow> (\<exists>b. map_of (steps w) p = Some b \<and> r \<in> set b)"
  by (cases "map_of (steps w) p") (simp_all add: bucket_def)

lemma in_phases_bucket: "in_phases w r ps \<longleftrightarrow> (\<exists>p \<in> set ps. r \<in> set (bucket w p))"
  by (simp add: in_phases_def in_bucket_iff)

lemma RootOf_not_empty: "RootOf w x = Some (Some r) \<Longrightarrow> \<not> empty w"
  by (auto simp: RootOf_def split: if_splits)

lemma UpstreamOf_keys:
  assumes "UpstreamOf w step = Some ups" and "RootOf w step = Some (Some r)"
  shows "k \<in> fst ` set ups \<longleftrightarrow>
           in_phases w r WorkflowPhases \<and>
           (\<exists>st. deref (StateOf w (Some r)) = Some st \<and> k \<in> roots_of w (GetUpstreams w st))"
proof -
  note M = UpstreamOf_map [OF assms(1)]
  have ne: "\<not> empty w" using assms(2) by (rule RootOf_not_empty)
  have "k \<in> fst ` set ups \<longleftrightarrow> map_of ups k \<noteq> None"
    by (simp add: map_of_eq_None_iff)
  also have "\<dots> \<longleftrightarrow> upstream_map w step k \<noteq> None" using M by simp
  also have "\<dots> \<longleftrightarrow> in_phases w r WorkflowPhases \<and>
           (\<exists>st. deref (StateOf w (Some r)) = Some st \<and> k \<in> roots_of w (GetUpstreams w st))"
  proof (cases "in_phases w r WorkflowPhases")
    case False
    then show ?thesis using assms(2) by (auto simp: upstream_map_def split: option.splits)
  next
    case True
    from assms(1) ne assms(2) have ph: "UpstreamOf_phases w (Some r) WorkflowPhases [] = Some ups"
      by (simp add: UpstreamOf_def)
    from UpstreamOf_phases_map [OF ph] True obtain st
      where st: "deref (StateOf w (Some r)) = Some st"
        and nn: "\<forall>k \<in> roots_of w (GetUpstreams w st). se_of w k \<noteq> None" by auto
    show ?thesis using assms(2) st nn True ne by (auto simp: upstream_map_def)
  qed
  finally show ?thesis .
qed

lemma UpstreamOf_DownstreamOf_keys:
  assumes "UpstreamOf w (Some s) = Some ups" and "DownstreamOf w (Some u) = Some downs"
    and "RootOf w (Some s) = Some (Some r)" and "map_of (tree w) u = Some p"
  shows "p \<in> fst ` set ups \<longleftrightarrow> r \<in> fst ` set downs"
proof -
  have ne: "\<not> empty w" using assms(3) by (rule RootOf_not_empty)
  from assms(2,4) ne have "DownstreamOf_phases w (Some p) WorkflowPhases [] = Some downs"
    by (simp add: DownstreamOf_def)
  from DownstreamOf_phases_keys [OF this]
  have "r \<in> fst ` set downs \<longleftrightarrow>
          in_phases w r WorkflowPhases \<and> depends_under w (Some p) r"
    by (auto simp: in_phases_bucket)
  moreover have "p \<in> fst ` set ups \<longleftrightarrow>
          in_phases w r WorkflowPhases \<and> depends_under w (Some p) r"
    unfolding UpstreamOf_keys [OF assms(1,3)]
    by (auto simp: depends_under_def roots_of_def)
  ultimately show ?thesis by simp
qed

lemmas nested_defs = w_nested_def sI_def sM_def sK_def DownstreamOf_def

lemma w_nested_built:
  "Add [(Some sK, None), (Some sB, Some (depends_on [sK]))] w0 = Some w_nested"
  by (simp add: build_defs nested_defs fun_eq_iff)

lemma UpstreamOf_w_nested: "UpstreamOf w_nested (Some sB) = Some [(sK, Pending, None)]"
  by (simp add: run_defs nested_defs)

lemma DownstreamOf_w_nested: "DownstreamOf w_nested (Some sM) = Some [(sB, Pending, None)]"
  by (simp add: run_defs nested_defs)

lemma DownstreamOf_w_nested_deep:
  "RootOf w_nested (Some sI) = Some (Some sK) \<and> DownstreamOf w_nested (Some sI) = Some []"
  by (simp add: run_defs nested_defs)

lemma tick_steps_launched:
  assumes "tick_steps ctx b w = Some w'"
  shows "\<exists>launched. waitGroup w' = waitGroup w @ launched \<and> launched_ok w w' b launched \<and>
           (\<forall>st. GetStatus w' st = Running \<longrightarrow>
              GetStatus w st = Running \<or> st \<in> snd ` set launched)"
  using assms
proof (induction b arbitrary: w)
  case Nil
  then show ?case by (simp add: launched_ok_def)
next
  case (Cons s rest)
  from Cons.prems obtain w1 where one: "tick_step ctx s w = Some w1"
    and more: "tick_steps ctx rest w1 = Some w'"
    by (auto split: option.splits)
  note E = tick_step_effect [OF one]
  note T = tick_steps_effect [OF more]
  from E have k1: "kept w w1" and sk1: "settled_kept w w1" by auto
  from T have k2: "kept w1 w'" and sk2: "settled_kept w1 w'" by auto
  have k: "kept w w'" using k1 k2 by (rule kept_trans)
  have sk: "settled_kept w w'" using sk1 sk2 by (rule settled_kept_trans)
  from E obtain st where st: "deref (StateOf w (Some s)) = Some st"
    and fr: "\<forall>r. r \<noteq> st \<longrightarrow> heap w1 r = heap w r"
    and ef: "w1 = w \<or>
        GetStatus w st = Pending \<and>
        (\<exists>ups. UpstreamOf w (Some s) = Some ups \<and> \<not> isAnyUpstreamNotTerminated ups) \<and>
        (IsTerminated_status (GetStatus w1 st) \<and> waitGroup w1 = waitGroup w \<or>
         GetStatus w1 st = Running \<and> waitGroup w1 = waitGroup w @ [(s, st)])"
    by blast
  from Cons.IH [OF more] obtain l2 where wg2: "waitGroup w' = waitGroup w1 @ l2"
    and ok2: "launched_ok w1 w' rest l2"
    and run2: "\<forall>r. GetStatus w' r = Running \<longrightarrow> GetStatus w1 r = Running \<or> r \<in> snd ` set l2"
    by blast
  have pend: "GetStatus w r = Pending" if "GetStatus w1 r = Pending" for r
  proof (cases "heap w1 r = heap w r")
    case True
    with that show ?thesis by (simp add: GetStatus_def)
  next
    case False
    with fr have "r = st" by blast
    with False ef that show ?thesis by auto
  qed
  have ok2': "launched_ok w w' (s # rest) l2"
    using ok2 pend by (auto simp: launched_ok_def list_all_iff kept_StateOf [OF k1])
  show ?case
  proof (cases "GetStatus w1 st = Running \<and> waitGroup w1 = waitGroup w @ [(s, st)] \<and>
      GetStatus w st = Pending")
    case False
    with ef have wg1: "waitGroup w1 = waitGroup w"
      and nr: "GetStatus w1 st = Running \<longrightarrow> GetStatus w st = Running" by auto
    have "\<forall>r. GetStatus w' r = Running \<longrightarrow> GetStatus w r = Running \<or> r \<in> snd ` set l2"
    proof (intro allI impI)
      fix r assume "GetStatus w' r = Running"
      with run2 have "GetStatus w1 r = Running \<or> r \<in> snd ` set l2" by blast
      then show "GetStatus w r = Running \<or> r \<in> snd ` set l2"
      proof
        assume r1: "GetStatus w1 r = Running"
        show ?thesis
        proof (cases "r = st")
          case True
          with r1 nr show ?thesis by simp
        next
          case False
          with fr r1 show ?thesis by (simp add: GetStatus_def)
        qed
      qed simp
    qed
    with wg2 wg1 ok2' show ?thesis by auto
  next
    case True
    then have r1: "GetStatus w1 st = Running" and wg1: "waitGroup w1 = waitGroup w @ [(s, st)]"
      and p: "GetStatus w st = Pending" by auto
    from True ef obtain ups where ups: "UpstreamOf w (Some s) = Some ups"
      and t: "\<not> isAnyUpstreamNotTerminated ups" by auto
    have up': "UpstreamOf w' (Some s) = Some ups" by (rule UpstreamOf_settled [OF k sk ups t])
    from r1 sk2 have "heap w' st = heap w1 st" by (simp add: settled_kept_def)
    with r1 have r': "GetStatus w' st = Running" by (simp add: GetStatus_def)
    have notin: "st \<notin> snd ` set l2"
      using ok2 r1 by (auto simp: launched_ok_def list_all_iff)
    have "launched_ok w w' (s # rest) ((s, st) # l2)"
      using ok2' notin st p r' up' t
      by (auto simp: launched_ok_def list_all_iff isAnyUpstreamNotTerminated_iff)
    moreover have "waitGroup w' = waitGroup w @ (s, st) # l2" using wg1 wg2 by simp
    moreover have "\<forall>r. GetStatus w' r = Running \<longrightarrow>
        GetStatus w r = Running \<or> r \<in> snd ` set ((s, st) # l2)"
    proof (intro allI impI)
      fix r assume "GetStatus w' r = Running"
      with run2 have "GetStatus w1 r = Running \<or> r \<in> snd ` set l2" by blast
      then show "GetStatus w r = Running \<or> r \<in> snd ` set ((s, st) # l2)"
      proof
        assume r1: "GetStatus w1 r = Running"
        show ?thesis
        proof (cases "r = st")
          case True
          then show ?thesis by simp
        next
          case False
          with fr r1 show ?thesis by (simp add: GetStatus_def)
        qed
      qed simp
    qed
    ultimately show ?thesis by blast
  qed
qed

text \<open>
  C1. The goroutines a tick starts are appended to the wait group, one for a state at
  most. Each is for a step of the selected bucket whose status was \<open>Pending\<close> before the
  tick and is \<open>Running\<close> after it, and whose upstreams, as \<^verbatim>\<open>UpstreamOf\<close> reports them,
  are all terminated (they were when the step was visited, and they still are when the
  tick returns). No other status becomes \<open>Running\<close>, and a state that is not \<open>Pending\<close> is
  left as it is: a step that is not \<open>Pending\<close>, or that has an upstream that is not
  terminated, is not launched in that tick.
\<close>

theorem C1_launch_only_pending_with_terminated_upstreams:
  assumes "tick ctx w = Some (done, w')"
  shows "\<exists>p launched. waitGroup w' = waitGroup w @ launched \<and>
           (launched = [] \<or> p \<in> set WorkflowPhases) \<and>
           launched_ok w w' (bucket w p) launched \<and>
           (\<forall>st. GetStatus w' st = Running \<longrightarrow>
              GetStatus w st = Running \<or> st \<in> snd ` set launched) \<and>
           (\<forall>st. GetStatus w st \<noteq> Pending \<longrightarrow> heap w' st = heap w st)"
proof -
  from assms obtain x where x: "tick_phase w WorkflowPhases = Some x"
    by (auto simp: tick_def split: option.splits)
  from tick_phase_selects [OF x] show ?thesis
  proof
    assume "x = None \<and> (\<forall>q \<in> set WorkflowPhases. IsPhaseTerminated w q = Some True)"
    with assms x have "w' = w" by (simp add: tick_def)
    then have "waitGroup w' = waitGroup w @ [] \<and> launched_ok w w' (bucket w PhaseMain) []"
      by (simp add: launched_ok_def)
    with \<open>w' = w\<close> show ?thesis by blast
  next
    assume "\<exists>pre p post. WorkflowPhases = pre @ p # post \<and>
        (\<forall>q \<in> set pre. IsPhaseTerminated w q = Some True) \<and>
        IsPhaseTerminated w p = Some False \<and> x = Some (bucket w p)"
    then obtain pre p post where sel: "WorkflowPhases = pre @ p # post"
      and xb: "x = Some (bucket w p)" by blast
    have p: "p \<in> set WorkflowPhases" unfolding sel by simp
    from assms x xb have ts: "tick_steps ctx (bucket w p) w = Some w'"
      by (auto simp: tick_def split: option.splits)
    from tick_steps_effect [OF ts]
    have "\<forall>st. GetStatus w st \<noteq> Pending \<longrightarrow> heap w' st = heap w st"
      by (simp add: settled_kept_def)
    with tick_steps_launched [OF ts] p show ?thesis by blast
  qed
qed

lemma tick_w_ab_succeeded:
  "tick 0 w_ab_succeeded = Some (False, (SetStatus 0 Running w_ab_succeeded)\<lparr>waitGroup := [(sA, 0)]\<rparr>)"
  by (simp add: run_defs w_ab_def w_ab_succeeded_def)

lemma tick_w_ab_failed:
  "tick 0 w_ab_failed = Some (False, signalTick (SetStatus 0 Canceled w_ab_failed))"
  by (simp add: run_defs w_ab_def w_ab_failed_def)

theorem C1_launch_witness:
  "tick 0 w_ab_succeeded = Some (False, (SetStatus 0 Running w_ab_succeeded)\<lparr>waitGroup := [(sA, 0)]\<rparr>) \<and>
   UpstreamOf ((SetStatus 0 Running w_ab_succeeded)\<lparr>waitGroup := [(sA, 0)]\<rparr>) (Some sA) =
     Some [(sB, Succeeded, None)] \<and>
   (\<exists>p launched.
      waitGroup ((SetStatus 0 Running w_ab_succeeded)\<lparr>waitGroup := [(sA, 0)]\<rparr>) =
        waitGroup w_ab_succeeded @ launched \<and>
      (launched = [] \<or> p \<in> set WorkflowPhases) \<and>
      launched_ok w_ab_succeeded ((SetStatus 0 Running w_ab_succeeded)\<lparr>waitGroup := [(sA, 0)]\<rparr>)
        (bucket w_ab_succeeded p) launched) \<and>
   tick 0 w_ab = Some (False, w_ab_ticked) \<and> waitGroup w_ab = [] \<and>
   waitGroup w_ab_ticked = [(sB, 1)] \<and> GetStatus w_ab_ticked 0 = Pending \<and>
   UpstreamOf w_ab_ticked (Some sA) = Some [(sB, Running, None)] \<and>
   (\<exists>p launched. waitGroup w_ab_ticked = waitGroup w_ab @ launched \<and>
      launched_ok w_ab w_ab_ticked (bucket w_ab p) launched) \<and>
   tick 0 w_ab_failed = Some (False, signalTick (SetStatus 0 Canceled w_ab_failed)) \<and>
   waitGroup (signalTick (SetStatus 0 Canceled w_ab_failed)) = []"
proof -
  have e: "UpstreamOf ((SetStatus 0 Running w_ab_succeeded)\<lparr>waitGroup := [(sA, 0)]\<rparr>) (Some sA) =
     Some [(sB, Succeeded, None)]"
    "waitGroup w_ab = []" "waitGroup w_ab_ticked = [(sB, 1)]" "GetStatus w_ab_ticked 0 = Pending"
    "UpstreamOf w_ab_ticked (Some sA) = Some [(sB, Running, None)]"
    "waitGroup (signalTick (SetStatus 0 Canceled w_ab_failed)) = []"
    by (simp_all add: run_defs w_ab_def w_ab_succeeded_def w_ab_ticked_def w_ab_failed_def)
  from C1_launch_only_pending_with_terminated_upstreams [OF tick_w_ab_succeeded]
    C1_launch_only_pending_with_terminated_upstreams [OF tick_w_ab]
    tick_w_ab_succeeded tick_w_ab tick_w_ab_failed e
  show ?thesis by blast
qed

lemma w_defer_built:
  "Option.bind (Defer [(Some sK, None)] w0) (Add [(Some sB, Some (depends_on [sM]))]) = Some w_defer"
  by (simp add: build_defs nested_defs w_defer_def fun_eq_iff)

text \<open>
  C2. In the workflow built by \<^verbatim>\<open>Defer(Step(K))\<close>, with K holding M, and
  \<^verbatim>\<open>Add(Step(B).DependsOn(M))\<close>, the step K is in the bucket of phase Defer only and
  \<^verbatim>\<open>PhaseOf\<close> gives Defer for it. The first tick selects phase Main, whose bucket holds
  the nested M, and sets the state of K to \<open>Running\<close> while B of phase Main is \<open>Pending\<close>.
\<close>

theorem C2_deferred_root_started_in_main:
  "PhaseOf w_defer (Some sK) = Some PhaseDefer \<and> RootOf w_defer (Some sM) = Some (Some sK) \<and>
   bucket w_defer PhaseInit = [] \<and> bucket w_defer PhaseMain = [sM, sB] \<and>
   bucket w_defer PhaseDefer = [sK] \<and>
   deref (StateOf w_defer (Some sK)) = Some 0 \<and> deref (StateOf w_defer (Some sM)) = Some 0 \<and>
   deref (StateOf w_defer (Some sB)) = Some 1 \<and>
   GetStatus w_defer 0 = Pending \<and> IsPhaseTerminated w_defer PhaseMain = Some False \<and>
   tick 0 w_defer = Some (False, w_defer_ticked) \<and>
   GetStatus w_defer_ticked 0 = Running \<and> GetStatus w_defer_ticked 1 = Pending \<and>
   waitGroup w_defer_ticked = [(sM, 0)] \<and>
   IsPhaseTerminated w_defer_ticked PhaseMain = Some False"
  by (simp add: run_defs nested_defs w_defer_def w_defer_ticked_def PhaseOf_def)

lemma UpstreamOf_DownstreamOf_roots:
  assumes "UpstreamOf w (Some s) = Some ups" and "DownstreamOf w (Some u) = Some downs"
    and "map_of (tree w) s = Some s" and "map_of (tree w) u = Some u" and "\<not> empty w"
  shows "u \<in> fst ` set ups \<longleftrightarrow> s \<in> fst ` set downs"
proof -
  have "RootOf w (Some s) = Some (Some s)" using assms(3,5) by (simp add: RootOf_def)
  from UpstreamOf_DownstreamOf_keys [OF assms(1,2) this assms(4)] show ?thesis .
qed

text \<open>
  C7. In the workflow built by \<^verbatim>\<open>Add(Step(K))\<close>, with K holding M and M holding I, and
  \<^verbatim>\<open>Add(Step(B).DependsOn(K))\<close>, the root of I is K and K is the key of \<^verbatim>\<open>UpstreamOf(B)\<close>;
  B is the key of \<^verbatim>\<open>DownstreamOf(K)\<close> and of \<^verbatim>\<open>DownstreamOf(M)\<close>, but \<^verbatim>\<open>DownstreamOf(I)\<close>
  is empty: the source compares with \<^verbatim>\<open>w.tree[step]\<close>, which is M, not with the root.
\<close>

theorem C7_DownstreamOf_reads_container:
  "RootOf w_nested (Some sI) = Some (Some sK) \<and> map_of (tree w_nested) sI = Some sM \<and>
   RootOf w_nested (Some sB) = Some (Some sB) \<and>
   UpstreamOf w_nested (Some sB) = Some [(sK, Pending, None)] \<and>
   UpstreamOf w_nested (Some sI) = Some [] \<and>
   DownstreamOf w_nested (Some sK) = Some [(sB, Pending, None)] \<and>
   DownstreamOf w_nested (Some sM) = Some [(sB, Pending, None)] \<and>
   DownstreamOf w_nested (Some sI) = Some []"
  by (simp add: run_defs nested_defs)

end
